theory Spec2Isabelle
  imports Main "HOL-Library.Word"
begin

section \<open>The float64 type of the Go runtime\<close>

text \<open>
  The counter of \<^verbatim>\<open>prometheus/counter.go\<close> keeps a float64 as its 64 bits in a
  uint64 register and moves between the two views with \<^verbatim>\<open>math.Float64frombits\<close> and
  \<^verbatim>\<open>math.Float64bits\<close>, which reinterpret the bits and change nothing. A float64 is
  therefore modelled as its bit pattern: the constructor and its selector are the two
  conversions.

  IEEE 754 binary64: bit 63 is the sign, the low 63 bits (here the "pattern") hold the
  11-bit exponent field above the 52-bit fraction. Every finite double is an integer
  multiple of \<open>2\<^sup>-\<^sup>1\<^sup>0\<^sup>7\<^sup>4\<close>, so the exact value of a finite double is kept as an integer
  number of such units, and addition is the exact integer sum rounded to the nearest
  double, ties to the even fraction (the rounding mode Go uses).
\<close>

type_synonym uint64 = "64 word"

datatype float64 = Float64frombits (Float64bits: uint64)

definition f64_neg :: "float64 \<Rightarrow> bool" where
  "f64_neg f = (2 ^ 63 \<le> unat (Float64bits f))"

definition f64_pat :: "float64 \<Rightarrow> nat" where
  "f64_pat f = unat (Float64bits f) mod 2 ^ 63"

text \<open>The pattern of infinity: exponent field 2047, fraction 0. Above it are the NaNs.\<close>

definition INF_PAT :: nat where
  "INF_PAT = 2047 * 2 ^ 52"

definition isNaN :: "float64 \<Rightarrow> bool" where
  "isNaN f = (INF_PAT < f64_pat f)"

definition isInf :: "float64 \<Rightarrow> bool" where
  "isInf f = (f64_pat f = INF_PAT)"

text \<open>The number 1.0 counted in units of \<open>2\<^sup>-\<^sup>1\<^sup>0\<^sup>7\<^sup>4\<close>.\<close>

definition ONE_UNITS :: nat where
  "ONE_UNITS = 2 ^ 1074"

text \<open>
  The magnitude of a finite pattern in units: exponent fields 0 (subnormal) and 1 both
  have weight one unit, so below \<open>2\<^sup>5\<^sup>3\<close> the pattern is its own magnitude; above, the
  implicit leading bit is added to the fraction and the field shifts it.
\<close>

definition pat_val :: "nat \<Rightarrow> nat" where
  "pat_val p =
     (if p < 2 ^ 53 then p else (2 ^ 52 + p mod 2 ^ 52) * 2 ^ (p div 2 ^ 52 - 1))"

fun bitlen :: "nat \<Rightarrow> nat" where
  "bitlen n = (if n = 0 then 0 else Suc (bitlen (n div 2)))"

text \<open>\<open>rne a s\<close> is \<open>a / 2\<^sup>s\<close> rounded to the nearest integer, ties to even.\<close>

definition rne :: "nat \<Rightarrow> nat \<Rightarrow> nat" where
  "rne a s =
     (let q = a div 2 ^ s; r = a mod 2 ^ s
      in if 2 ^ s < 2 * r \<or> (2 * r = 2 ^ s \<and> odd q) then q + 1 else q)"

text \<open>
  The pattern nearest to a magnitude of \<open>a\<close> units. With \<open>s\<close> the number of bits that
  do not fit into 53, the exponent field is \<open>s + 1\<close> and the fraction the rounded
  quotient less its leading bit, which is \<open>s * 2\<^sup>5\<^sup>2\<close> plus the rounded quotient; a
  quotient that rounds up to \<open>2\<^sup>5\<^sup>3\<close> carries into the exponent field by itself. What
  exceeds the largest finite double becomes infinity.
\<close>

definition round_pat :: "nat \<Rightarrow> nat" where
  "round_pat a = (let s = bitlen a - 53 in min INF_PAT (s * 2 ^ 52 + rne a s))"

definition f64_make :: "bool \<Rightarrow> nat \<Rightarrow> float64" where
  "f64_make neg p = Float64frombits (word_of_nat (if neg then 2 ^ 63 + p else p))"

definition f64_int :: "float64 \<Rightarrow> int" where
  "f64_int f =
     (if f64_neg f then - int (pat_val (f64_pat f)) else int (pat_val (f64_pat f)))"

text \<open>
  The sort key of a double that is not a NaN: patterns are ordered as their magnitudes
  are, and both zeros have key 0.
\<close>

definition f64_key :: "float64 \<Rightarrow> int" where
  "f64_key f = (if f64_neg f then - int (f64_pat f) else int (f64_pat f))"

text \<open>A NaN with its quiet bit, the top bit of the fraction, set.\<close>

definition f64_quiet :: "float64 \<Rightarrow> float64" where
  "f64_quiet f =
     (if unat (Float64bits f) div 2 ^ 51 mod 2 = 1 then f
      else Float64frombits (Float64bits f + 2 ^ 51))"

text \<open>
  Go's \<^verbatim>\<open>x + y\<close> on float64. A NaN operand is returned quiet as the result, and
  \<open>\<infinity> + (-\<infinity>)\<close> gives the NaN with the sign bit and the quiet bit set, as on amd64;
  which of two NaN operands is returned, and the sign of the NaN made from the
  infinities, vary with the platform, and nothing below depends on more than the result
  being a NaN in these cases.
\<close>

definition fadd :: "float64 \<Rightarrow> float64 \<Rightarrow> float64" where
  "fadd x y =
    (if isNaN x then f64_quiet x
     else if isNaN y then f64_quiet y
     else if isInf x then
       (if isInf y \<and> f64_neg x \<noteq> f64_neg y then f64_make True (INF_PAT + 2 ^ 51) else x)
     else if isInf y then y
     else let n = f64_int x + f64_int y
          in if n = 0 then f64_make (f64_neg x \<and> f64_neg y) 0
             else f64_make (n < 0) (round_pat (nat \<bar>n\<bar>)))"

text \<open>Go's \<^verbatim>\<open>==\<close>, \<^verbatim>\<open><\<close> and \<^verbatim>\<open>>=\<close> on float64: false whenever an operand is a NaN.\<close>

definition feq :: "float64 \<Rightarrow> float64 \<Rightarrow> bool" where
  "feq x y = (\<not> isNaN x \<and> \<not> isNaN y \<and> f64_key x = f64_key y)"

definition flt :: "float64 \<Rightarrow> float64 \<Rightarrow> bool" where
  "flt x y = (\<not> isNaN x \<and> \<not> isNaN y \<and> f64_key x < f64_key y)"

definition fge :: "float64 \<Rightarrow> float64 \<Rightarrow> bool" where
  "fge x y = (\<not> isNaN x \<and> \<not> isNaN y \<and> f64_key y \<le> f64_key x)"

definition f64_zero :: float64 where
  "f64_zero = Float64frombits 0"

text \<open>Go's conversion \<^verbatim>\<open>float64(x)\<close> of a uint64: the nearest double, ties to even.\<close>

definition float64_of_uint64 :: "uint64 \<Rightarrow> float64" where
  "float64_of_uint64 x = f64_make False (round_pat (unat x * ONE_UNITS))"

text \<open>
  On doubles that are not negative, addition and the conversion from uint64 act on the
  patterns alone: \<open>fsum\<close> is the pattern of a sum, \<open>upat\<close> the pattern of a converted
  integer (shown below as \<open>fadd_nonneg\<close> and \<open>of_uint64_pat\<close>).
\<close>

definition fsum :: "nat \<Rightarrow> nat \<Rightarrow> nat" where
  "fsum p q = (if p = INF_PAT \<or> q = INF_PAT then INF_PAT else round_pat (pat_val p + pat_val q))"

definition upat :: "uint64 \<Rightarrow> nat" where
  "upat x = round_pat (unat x * ONE_UNITS)"

text \<open>
  Go's conversion \<^verbatim>\<open>uint64(v)\<close> of a float64 drops the fraction. When the truncated
  value does not fit into a uint64 (\<open>v \<le> -1\<close>, \<open>v \<ge> 2\<^sup>6\<^sup>4\<close>, infinities, NaNs) the language
  leaves the result to the implementation: \<open>ovf v\<close> stands for what the platform gives.
\<close>

definition uint64_of_float64 :: "(float64 \<Rightarrow> uint64) \<Rightarrow> float64 \<Rightarrow> uint64" where
  "uint64_of_float64 ovf v =
     (if \<not> isNaN v \<and> \<not> isInf v \<and> - int ONE_UNITS < f64_int v
         \<and> f64_int v < int (2 ^ 64 * ONE_UNITS)
      then word_of_nat (nat \<bar>f64_int v\<bar> div ONE_UNITS)
      else ovf v)"

section \<open>The counter\<close>

type_synonym Time = int
type_synonym LabelPair = "string \<times> string"
type_synonym Labels = "(string \<times> string) list"

record Exemplar =
  Label :: "LabelPair list"
  Value :: float64
  Timestamp :: Time

text \<open>
  The fields of \<^verbatim>\<open>struct counter\<close> that its methods read or write. \<^verbatim>\<open>exemplar\<close> is an
  \<^verbatim>\<open>atomic.Value\<close> holding nil or an exemplar; \<^verbatim>\<open>now\<close> is the clock. The descriptor and
  the self-collector take no part in the methods below.
\<close>

record counter =
  valBits :: uint64
  change :: uint64
  createdTs :: Time
  labelPairs :: "LabelPair list"
  exemplar :: "Exemplar option"
  now :: "unit \<Rightarrow> Time"

text \<open>A call either returns or panics with a value; the state it leaves is kept beside.\<close>

datatype ('e, 'a) outcome = Returned 'a | Panicked 'e

text \<open>
  \<^verbatim>\<open>NewCounter\<close>: both registers start as Go's zero value, no exemplar is stored, and the
  creation time is read from the clock.
\<close>

definition NewCounter :: "LabelPair list \<Rightarrow> (unit \<Rightarrow> Time) \<Rightarrow> counter" where
  "NewCounter constLabelPairs clock =
     \<lparr>valBits = 0, change = 0, createdTs = clock (), labelPairs = constLabelPairs,
      exemplar = None, now = clock\<rparr>"

subsection \<open>sync/atomic on the two registers\<close>

text \<open>
  The operations of \<^verbatim>\<open>sync/atomic\<close> as one thread sees them: each takes the address of
  a register and the counter's memory and gives its result and the memory after it.
\<close>

datatype reg = ValBits | Change

definition LoadUint64 :: "reg \<Rightarrow> counter \<Rightarrow> uint64 \<times> counter" where
  "LoadUint64 r c = (case r of ValBits \<Rightarrow> (valBits c, c) | Change \<Rightarrow> (change c, c))"

definition StoreUint64 :: "reg \<Rightarrow> uint64 \<Rightarrow> counter \<Rightarrow> counter" where
  "StoreUint64 r x c = (case r of ValBits \<Rightarrow> c\<lparr>valBits := x\<rparr> | Change \<Rightarrow> c\<lparr>change := x\<rparr>)"

definition CompareAndSwapUint64 :: "reg \<Rightarrow> uint64 \<Rightarrow> uint64 \<Rightarrow> counter \<Rightarrow> bool \<times> counter" where
  "CompareAndSwapUint64 r old new c =
     (if fst (LoadUint64 r c) = old then (True, StoreUint64 r new c) else (False, c))"

definition AddUint64 :: "reg \<Rightarrow> uint64 \<Rightarrow> counter \<Rightarrow> uint64 \<times> counter" where
  "AddUint64 r delta c =
     (let new = fst (LoadUint64 r c) + delta in (new, StoreUint64 r new c))"

subsection \<open>The methods\<close>

definition addWithRoundingErrorChecking :: "float64 \<Rightarrow> float64 \<Rightarrow> float64 \<times> bool" where
  "addWithRoundingErrorChecking base addend =
     (if feq addend f64_zero then (base, False)
      else let sum = fadd base addend in (sum, feq sum base))"

text \<open>
  The \<^verbatim>\<open>for\<close> loop of \<^verbatim>\<open>Add\<close>. A failed compare-and-swap starts the next round; a
  loop that never leaves is the value \<open>None\<close>.
\<close>

partial_function (option) Add_loop ::
  "(float64 \<Rightarrow> uint64) \<Rightarrow> counter \<Rightarrow> float64 \<Rightarrow> counter option" where
  "Add_loop ovf c v =
     (let (oldBits, c1) = LoadUint64 ValBits c;
          (newF, hasRoundingErr) = addWithRoundingErrorChecking (Float64frombits oldBits) v
      in if hasRoundingErr then
           (let u = uint64_of_float64 ovf v;
                (oldChange, c2) = LoadUint64 Change c1;
                (newF, isChangeSmall) =
                   addWithRoundingErrorChecking (Float64frombits oldBits)
                     (float64_of_uint64 (oldChange + u))
            in if isChangeSmall then
                 (let (swapped, c3) = CompareAndSwapUint64 Change oldChange (oldChange + u) c2
                  in if swapped then Some c3 else Add_loop ovf c3 v)
               else
                 (let newBits = Float64bits newF;
                      (swapped, c3) = CompareAndSwapUint64 ValBits oldBits newBits c2
                  in if swapped then Some (StoreUint64 Change 0 c3) else Add_loop ovf c3 v))
         else
           (let newBits = Float64bits newF;
                (swapped, c2) = CompareAndSwapUint64 ValBits oldBits newBits c1
            in if swapped then Some c2 else Add_loop ovf c2 v))"

definition Add ::
  "(float64 \<Rightarrow> uint64) \<Rightarrow> counter \<Rightarrow> float64 \<Rightarrow> ((string, unit) outcome \<times> counter) option" where
  "Add ovf c v =
     (if flt v f64_zero then Some (Panicked ''counter cannot decrease in value'', c)
      else map_option (\<lambda>c'. (Returned (), c')) (Add_loop ovf c v))"

definition Inc :: "counter \<Rightarrow> counter" where
  "Inc c = snd (AddUint64 Change 1 c)"

definition get :: "counter \<Rightarrow> float64 \<times> counter" where
  "get c =
     (let (bits, c1) = LoadUint64 ValBits c;
          fval = Float64frombits bits;
          (ival, c2) = LoadUint64 Change c1
      in (fadd fval (float64_of_uint64 ival), c2))"

text \<open>
  \<^verbatim>\<open>updateExemplar\<close>. \<^verbatim>\<open>newExemplar\<close> lives in another file of the package and is a
  parameter here; \<open>None\<close> for the labels is Go's nil map.
\<close>

definition updateExemplar ::
  "(float64 \<Rightarrow> Time \<Rightarrow> Labels \<Rightarrow> string + Exemplar) \<Rightarrow> counter \<Rightarrow> float64 \<Rightarrow> Labels option
     \<Rightarrow> (string, unit) outcome \<times> counter" where
  "updateExemplar newExemplar c v l =
     (case l of
        None \<Rightarrow> (Returned (), c)
      | Some ls \<Rightarrow>
          (case newExemplar v (now c ()) ls of
             Inl err \<Rightarrow> (Panicked err, c)
           | Inr e \<Rightarrow> (Returned (), c\<lparr>exemplar := Some e\<rparr>)))"

definition AddWithExemplar ::
  "(float64 \<Rightarrow> uint64) \<Rightarrow> (float64 \<Rightarrow> Time \<Rightarrow> Labels \<Rightarrow> string + Exemplar) \<Rightarrow> counter \<Rightarrow> float64
     \<Rightarrow> Labels option \<Rightarrow> ((string, unit) outcome \<times> counter) option" where
  "AddWithExemplar ovf newExemplar c v e =
     (case Add ovf c v of
        None \<Rightarrow> None
      | Some (Panicked err, c1) \<Rightarrow> Some (Panicked err, c1)
      | Some (Returned u, c1) \<Rightarrow> Some (updateExemplar newExemplar c1 v e))"

text \<open>
  \<^verbatim>\<open>Write\<close> loads the exemplar, then calls \<^verbatim>\<open>get\<close>, then hands both to
  \<^verbatim>\<open>populateMetric\<close> (another file of the package, a parameter here). Other goroutines
  may write to the counter between the two reads: \<open>env\<close> is what they do to its memory
  in that interval, the identity when nobody else writes.
\<close>

datatype ValueType = CounterValue | GaugeValue | UntypedValue

definition Write ::
  "(ValueType \<Rightarrow> float64 \<Rightarrow> LabelPair list \<Rightarrow> Exemplar option \<Rightarrow> Time \<Rightarrow> 'r) \<Rightarrow> (counter \<Rightarrow> counter)
     \<Rightarrow> counter \<Rightarrow> 'r \<times> counter" where
  "Write populateMetric env c =
     (let e = exemplar c;
          exemplar' = (case e of None \<Rightarrow> None | Some x \<Rightarrow> Some x);
          c1 = env c;
          (val, c2) = get c1
      in (populateMetric CounterValue val (labelPairs c2) exemplar' (createdTs c2), c2))"

text \<open>Whether a call that may loop forever came back with a normal return.\<close>

definition returns :: "(('e, 'a) outcome \<times> 's) option \<Rightarrow> bool" where
  "returns r = (case r of Some (Returned x, s) \<Rightarrow> True | _ \<Rightarrow> False)"

section \<open>Concrete inputs\<close>

text \<open>
  Inputs at which the theorems below are evaluated: a platform whose out-of-range
  conversion saturates, a clock, an exemplar constructor that accepts every label set, a
  \<^verbatim>\<open>populateMetric\<close> that records its arguments, and a counter as \<^verbatim>\<open>NewCounter\<close>
  leaves it.
\<close>

definition ovf_saturating :: "float64 \<Rightarrow> uint64" where
  "ovf_saturating v = (if isNaN v \<or> f64_neg v then 0 else - 1)"

definition example_clock :: "unit \<Rightarrow> Time" where
  "example_clock u = 1700000000"

definition example_newExemplar :: "float64 \<Rightarrow> Time \<Rightarrow> Labels \<Rightarrow> string + Exemplar" where
  "example_newExemplar v t ls = Inr \<lparr>Label = ls, Value = v, Timestamp = t\<rparr>"

definition example_populate ::
  "ValueType \<Rightarrow> float64 \<Rightarrow> LabelPair list \<Rightarrow> Exemplar option \<Rightarrow> Time
     \<Rightarrow> ValueType \<times> float64 \<times> LabelPair list \<times> Exemplar option \<times> Time" where
  "example_populate t v lps ex ts = (t, v, lps, ex, ts)"

definition fresh :: counter where
  "fresh = NewCounter [] example_clock"

text \<open>
  Another goroutine that calls \<^verbatim>\<open>AddWithExemplar(1.0, Labels{})\<close> on the counter and runs
  to its end.
\<close>

definition concurrent_AddWithExemplar :: "counter \<Rightarrow> counter" where
  "concurrent_AddWithExemplar c =
     (case AddWithExemplar ovf_saturating example_newExemplar c
             (Float64frombits 0x3FF0000000000000) (Some [])
      of Some (r, c') \<Rightarrow> c' | None \<Rightarrow> c)"

section \<open>Sequences of operations on one counter\<close>

text \<open>
  A sequential run of \<^verbatim>\<open>Inc\<close> and \<^verbatim>\<open>Add\<close> calls. A call that panics or never returns ends
  the run (\<open>None\<close>); \<open>run\<close> is the state the whole run ends in. \<open>reads_monotone\<close> says that \<^verbatim>\<open>get\<close> after each call is \<open>\<ge>\<close> \<^verbatim>\<open>get\<close>
  before it; \<open>carry_wraps\<close> says that a call makes the carry register wrap around
  \<open>2\<^sup>6\<^sup>4\<close>: an \<^verbatim>\<open>Inc\<close> at \<open>2\<^sup>6\<^sup>4 - 1\<close>, or an \<^verbatim>\<open>Add\<close> on the rounding-loss path whose
  \<^verbatim>\<open>oldChange+u\<close> reaches \<open>2\<^sup>6\<^sup>4\<close>.
\<close>

datatype op = OpInc | OpAdd float64

fun apply_op :: "(float64 \<Rightarrow> uint64) \<Rightarrow> counter \<Rightarrow> op \<Rightarrow> counter option" where
  "apply_op ovf c OpInc = Some (Inc c)"
| "apply_op ovf c (OpAdd v) =
     (case Add ovf c v of Some (Returned u, c') \<Rightarrow> Some c' | Some (Panicked e, c') \<Rightarrow> None | None \<Rightarrow> None)"

fun run :: "(float64 \<Rightarrow> uint64) \<Rightarrow> counter \<Rightarrow> op list \<Rightarrow> counter option" where
  "run ovf c [] = Some c"
| "run ovf c (x # xs) = (case apply_op ovf c x of None \<Rightarrow> None | Some c' \<Rightarrow> run ovf c' xs)"

fun op_nonneg :: "op \<Rightarrow> bool" where
  "op_nonneg OpInc = True"
| "op_nonneg (OpAdd v) = fge v f64_zero"

fun reads_monotone :: "(float64 \<Rightarrow> uint64) \<Rightarrow> counter \<Rightarrow> op list \<Rightarrow> bool" where
  "reads_monotone ovf c [] = True"
| "reads_monotone ovf c (x # xs) =
     (case apply_op ovf c x of
        None \<Rightarrow> False
      | Some c' \<Rightarrow> fge (fst (get c')) (fst (get c)) \<and> reads_monotone ovf c' xs)"

fun carry_wraps :: "(float64 \<Rightarrow> uint64) \<Rightarrow> counter \<Rightarrow> op \<Rightarrow> bool" where
  "carry_wraps ovf c OpInc = (2 ^ 64 \<le> unat (change c) + 1)"
| "carry_wraps ovf c (OpAdd v) =
     (snd (addWithRoundingErrorChecking (Float64frombits (valBits c)) v)
      \<and> 2 ^ 64 \<le> unat (change c) + unat (uint64_of_float64 ovf v))"

fun carry_never_wraps :: "(float64 \<Rightarrow> uint64) \<Rightarrow> counter \<Rightarrow> op list \<Rightarrow> bool" where
  "carry_never_wraps ovf c [] = True"
| "carry_never_wraps ovf c (x # xs) =
     (\<not> carry_wraps ovf c x
      \<and> (case apply_op ovf c x of None \<Rightarrow> True | Some c' \<Rightarrow> carry_never_wraps ovf c' xs))"

section \<open>The counter vector\<close>

text \<open>
  \<^verbatim>\<open>CounterVec.GetMetricWithLabelValues\<close> and \<^verbatim>\<open>CounterVec.WithLabelValues\<close> wrap the
  lookup of the embedded \<^verbatim>\<open>MetricVec\<close>, which lives in another file of the package and is
  the parameter \<open>mvGet\<close> here: from the vector and the label values it gives Go's pair of
  a metric (or nil) and an error (or nil), and the vector after the lookup. Every metric
  of a \<^verbatim>\<open>CounterVec\<close> is built by the closure that \<^verbatim>\<open>NewCounterVec\<close> passes to
  \<^verbatim>\<open>NewMetricVec\<close> and is a \<^verbatim>\<open>*counter\<close>, so the type assertion \<^verbatim>\<open>metric.(Counter)\<close> is the
  identity.
\<close>

definition GetMetricWithLabelValues ::
  "('v \<Rightarrow> string list \<Rightarrow> ('m option \<times> 'e option) \<times> 'v) \<Rightarrow> 'v \<Rightarrow> string list
     \<Rightarrow> ('m option \<times> 'e option) \<times> 'v" where
  "GetMetricWithLabelValues mvGet v lvs =
     (let ((metric, err), v') = mvGet v lvs
      in if metric \<noteq> None then ((metric, err), v') else ((None, err), v'))"

definition WithLabelValues ::
  "('v \<Rightarrow> string list \<Rightarrow> ('m option \<times> 'e option) \<times> 'v) \<Rightarrow> 'v \<Rightarrow> string list
     \<Rightarrow> ('e, 'm option) outcome \<times> 'v" where
  "WithLabelValues mvGet v lvs =
     (let ((c, err), v') = GetMetricWithLabelValues mvGet v lvs
      in case err of Some e \<Rightarrow> (Panicked e, v') | None \<Rightarrow> (Returned c, v'))"

definition panics :: "('e, 'a) outcome \<Rightarrow> bool" where
  "panics r = (case r of Panicked e \<Rightarrow> True | Returned x \<Rightarrow> False)"

text \<open>
  Modelled from the spec: \<^verbatim>\<open>MakeLabelPairs\<close> is in another file of the package. The spec
  (4.4) seeds a new Counter "with the combination's descriptor-derived label pairs": each
  variable label name with its value.
\<close>

definition MakeLabelPairs :: "string list \<Rightarrow> string list \<Rightarrow> LabelPair list" where
  "MakeLabelPairs names lvs = zip names lvs"

text \<open>
  The closure that \<^verbatim>\<open>NewCounterVec\<close> passes to \<^verbatim>\<open>NewMetricVec\<close>: it panics on a wrong
  number of label values and builds the counter otherwise.
\<close>

definition newMetric :: "string list \<Rightarrow> (unit \<Rightarrow> Time) \<Rightarrow> string list \<Rightarrow> (string, counter) outcome" where
  "newMetric names clock lvs =
     (if length lvs \<noteq> length names then Panicked ''inconsistent label cardinality''
      else Returned \<lparr>valBits = 0, change = 0, createdTs = clock (),
                     labelPairs = MakeLabelPairs names lvs, exemplar = None, now = clock\<rparr>)"

text \<open>
  Modelled from the spec: the state of a \<^verbatim>\<open>MetricVec\<close> as \<^verbatim>\<open>NewCounterVec\<close> returns it, with
  no label curried, so that every variable label is a free position. Spec 3: the family
  maps each label-value signature to its Counter; a Counter is identified by its address
  in \<open>store\<close>.
\<close>

record MetricVec =
  variableLabelNames :: "string list"
  metrics :: "(string list \<times> nat) list"
  store :: "counter list"
  vecNow :: "unit \<Rightarrow> Time"

text \<open>
  Modelled from the spec: \<^verbatim>\<open>MetricVec.GetMetricWithLabelValues\<close> is in vec.go, not among
  the sources. Spec 4.4: the lookup fails if the number of values does not match the
  number of free label positions, the non-panicking variant signalling it as an error;
  the first lookup of a combination constructs and stores a new Counter, later lookups
  return the identical instance. The closure's own length check cannot fail after the
  lookup's.
\<close>

definition MetricVec_GetMetricWithLabelValues ::
  "MetricVec \<Rightarrow> string list \<Rightarrow> (nat option \<times> string option) \<times> MetricVec" where
  "MetricVec_GetMetricWithLabelValues m lvs =
     (if length lvs \<noteq> length (variableLabelNames m)
      then ((None, Some ''inconsistent label cardinality''), m)
      else (case map_of (metrics m) lvs of
              Some a \<Rightarrow> ((Some a, None), m)
            | None \<Rightarrow>
                (case newMetric (variableLabelNames m) (vecNow m) lvs of
                   Returned c \<Rightarrow>
                     ((Some (length (store m)), None),
                      m\<lparr>metrics := (lvs, length (store m)) # metrics m, store := store m @ [c]\<rparr>)
                 | Panicked e \<Rightarrow> ((None, Some e), m))))"

definition example_vec :: MetricVec where
  "example_vec =
     \<lparr>variableLabelNames = [''code'', ''method''], metrics = [], store = [], vecNow = example_clock\<rparr>"

section \<open>Rounding to the nearest double\<close>

text \<open>
  The facts about \<open>round_pat\<close> that the counter needs: it is monotone, it never
  exceeds the pattern of infinity, and it gives every pattern back from its magnitude.
\<close>

declare bitlen.simps [simp del]

lemma bitlen_0: "bitlen 0 = 0"
  by (simp add: bitlen.simps)

lemma bitlen_pos: "0 < n \<Longrightarrow> bitlen n = Suc (bitlen (n div 2))"
  by (subst bitlen.simps) simp

lemma bitlen_le_iff: "bitlen n \<le> k \<longleftrightarrow> n < 2 ^ k"
proof (induction k arbitrary: n)
  case 0
  show ?case by (cases "n = 0") (simp_all add: bitlen_0 bitlen_pos)
next
  case (Suc k)
  show ?case
  proof (cases "n = 0")
    case True
    then show ?thesis by (simp add: bitlen_0)
  next
    case False
    then have "bitlen n \<le> Suc k \<longleftrightarrow> bitlen (n div 2) \<le> k"
      by (simp add: bitlen_pos)
    also have "\<dots> \<longleftrightarrow> n div 2 < 2 ^ k" by (rule Suc.IH)
    also have "\<dots> \<longleftrightarrow> n < 2 ^ Suc k" by auto
    finally show ?thesis .
  qed
qed

lemma bitlen_eq: "2 ^ k \<le> n \<Longrightarrow> n < 2 ^ Suc k \<Longrightarrow> bitlen n = Suc k"
proof -
  assume a: "2 ^ k \<le> n" and b: "n < 2 ^ Suc k"
  from b have "bitlen n \<le> Suc k" by (simp only: bitlen_le_iff)
  moreover from a have "\<not> bitlen n \<le> k" by (simp only: bitlen_le_iff not_less)
  ultimately show ?thesis by simp
qed

lemma bitlen_mono: "a \<le> b \<Longrightarrow> bitlen a \<le> bitlen b"
proof -
  assume "a \<le> b"
  have "b < 2 ^ bitlen b" using bitlen_le_iff [of b "bitlen b"] by simp
  with \<open>a \<le> b\<close> have "a < 2 ^ bitlen b" by simp
  then show ?thesis by (simp only: bitlen_le_iff)
qed

lemma bitlen_upper: "n < 2 ^ bitlen n"
  using bitlen_le_iff [of n "bitlen n"] by simp

lemma bitlen_lower: "0 < bitlen n \<Longrightarrow> 2 ^ (bitlen n - 1) \<le> n"
  using bitlen_le_iff [of n "bitlen n - 1"] by (cases "bitlen n") auto

lemma rne_0: "rne a 0 = a"
  by (simp add: rne_def)

lemma rne_lower: "a div 2 ^ s \<le> rne a s"
  by (simp add: rne_def Let_def)

lemma rne_upper: "rne a s \<le> a div 2 ^ s + 1"
  by (simp add: rne_def Let_def)

lemma rne_exact: "rne (m * 2 ^ s) s = m"
  by (simp add: rne_def Let_def)

lemma rne_mono:
  assumes "a \<le> b"
  shows "rne a s \<le> rne b s"
proof (cases "a div 2 ^ s = b div 2 ^ s")
  case True
  have "a div 2 ^ s * 2 ^ s + a mod 2 ^ s \<le> b div 2 ^ s * 2 ^ s + b mod 2 ^ s"
    using assms by (simp only: div_mult_mod_eq)
  with True have "a mod 2 ^ s \<le> b mod 2 ^ s"
    by simp
  with True show ?thesis
    by (auto simp add: rne_def Let_def)
next
  case False
  from assms have "a div 2 ^ s \<le> b div 2 ^ s" by (rule div_le_mono)
  with False have "a div 2 ^ s + 1 \<le> b div 2 ^ s" by simp
  with rne_upper [of a s] rne_lower [of b s] show ?thesis by linarith
qed

lemma round_pat_le_INF: "round_pat a \<le> INF_PAT"
  by (simp add: round_pat_def Let_def)

lemma round_pat_0: "round_pat 0 = 0"
  by (simp add: round_pat_def bitlen_0 rne_0)

lemma rne_le_top:
  "rne a (bitlen a - 53) \<le> 2 ^ 53"
proof (cases "bitlen a \<le> 53")
  case True
  then have "a < 2 ^ 53" by (simp only: bitlen_le_iff)
  with True show ?thesis by (simp add: rne_0)
next
  case False
  define s where "s = bitlen a - 53"
  from False have bl: "bitlen a = s + 53" by (simp add: s_def)
  have "a < 2 ^ (s + 53)" using bitlen_upper [of a] by (simp add: bl)
  then have "a < 2 ^ 53 * 2 ^ s" by (simp add: power_add mult.commute)
  then have "a div 2 ^ s < 2 ^ 53" by (simp add: less_mult_imp_div_less)
  with rne_upper [of a s] show ?thesis by (simp add: s_def)
qed

lemma rne_ge_bot:
  assumes "0 < bitlen a - 53"
  shows "2 ^ 52 \<le> rne a (bitlen a - 53)"
proof -
  define s where "s = bitlen a - 53"
  from assms have bl: "bitlen a = s + 53" by (simp add: s_def)
  have "2 ^ (s + 52) \<le> a" using bitlen_lower [of a] by (simp add: bl add.commute)
  then have "2 ^ 52 * 2 ^ s \<le> a" by (simp add: power_add mult.commute)
  then have "2 ^ 52 \<le> a div 2 ^ s"
    by (simp add: less_eq_div_iff_mult_less_eq)
  with rne_lower [of a s] show ?thesis by (simp add: s_def)
qed

lemma round_pat_mono:
  assumes "a \<le> b"
  shows "round_pat a \<le> round_pat b"
proof -
  define sa where "sa = bitlen a - 53"
  define sb where "sb = bitlen b - 53"
  from assms have le: "sa \<le> sb"
    using bitlen_mono [of a b] by (simp add: sa_def sb_def)
  have "sa * 2 ^ 52 + rne a sa \<le> sb * 2 ^ 52 + rne b sb"
  proof (cases "sa = sb")
    case True
    with rne_mono [OF assms, of sb] show ?thesis by simp
  next
    case False
    with le have lt: "Suc sa \<le> sb" by simp
    then have "0 < bitlen b - 53" by (simp add: sb_def)
    then have lo: "2 ^ 52 \<le> rne b sb" unfolding sb_def by (rule rne_ge_bot)
    have hi: "rne a sa \<le> 2 ^ 53" unfolding sa_def by (rule rne_le_top)
    have "sa * 2 ^ 52 + rne a sa \<le> Suc sa * 2 ^ 52 + 2 ^ 52" using hi by simp
    also have "\<dots> \<le> sb * 2 ^ 52 + 2 ^ 52" using lt by (simp only: add_le_cancel_right mult_le_mono1)
    also have "\<dots> \<le> sb * 2 ^ 52 + rne b sb" using lo by simp
    finally show ?thesis .
  qed
  then show ?thesis
    by (simp add: round_pat_def Let_def sa_def sb_def min.coboundedI2)
qed


lemma pat_val_small: "p < 2 ^ 53 \<Longrightarrow> pat_val p = p"
  by (simp add: pat_val_def)

lemma pat_val_big: "\<not> p < 2 ^ 53 \<Longrightarrow> pat_val p = (2 ^ 52 + p mod 2 ^ 52) * 2 ^ (p div 2 ^ 52 - 1)"
  by (simp add: pat_val_def)

lemma pat_big_exp: 
  assumes "\<not> p < (2::nat) ^ 53"
  shows "2 \<le> p div 2 ^ 52"
proof -
  from assms have "2 * 2 ^ 52 \<le> p" by simp
  then show ?thesis by (simp only: less_eq_div_iff_mult_less_eq zero_less_power zero_less_numeral)
qed

lemma pat_val_big_bounds:
  assumes "\<not> p < 2 ^ 53"
  shows "2 ^ (p div 2 ^ 52 + 51) \<le> pat_val p" and "pat_val p < 2 ^ Suc (p div 2 ^ 52 + 51)"
proof -
  define e where "e = p div 2 ^ 52"
  define f where "f = p mod 2 ^ 52"
  have e2: "2 \<le> e" unfolding e_def using assms by (rule pat_big_exp)
  have f: "f < 2 ^ 52" by (simp add: f_def)
  have v: "pat_val p = (2 ^ 52 + f) * 2 ^ (e - 1)"
    using assms by (simp add: pat_val_big e_def f_def)
  have x1: "52 + (e - 1) = e + 51" and x2: "53 + (e - 1) = Suc (e + 51)"
    using e2 by simp_all
  have "2 ^ 52 * 2 ^ (e - 1) \<le> (2 ^ 52 + f) * 2 ^ (e - 1)"
    by (rule mult_le_mono1) simp
  moreover have "(2::nat) ^ 52 * 2 ^ (e - 1) = 2 ^ (e + 51)"
    by (simp only: power_add [symmetric] x1)
  ultimately have "2 ^ (e + 51) \<le> pat_val p"
    by (simp only: v)
  then show "2 ^ (p div 2 ^ 52 + 51) \<le> pat_val p"
    by (simp only: e_def)
  have "2 ^ 52 + f < 2 ^ 53" using f by simp
  then have "(2 ^ 52 + f) * 2 ^ (e - 1) < 2 ^ 53 * 2 ^ (e - 1)"
    by (simp only: mult_less_cancel2 zero_less_power zero_less_numeral simp_thms)
  moreover have "(2::nat) ^ 53 * 2 ^ (e - 1) = 2 ^ Suc (e + 51)"
    by (simp only: power_add [symmetric] x2)
  ultimately have "pat_val p < 2 ^ Suc (e + 51)"
    by (simp only: v)
  then show "pat_val p < 2 ^ Suc (p div 2 ^ 52 + 51)"
    by (simp only: e_def)
qed

lemma round_pat_pat_val:
  assumes "p \<le> INF_PAT"
  shows "round_pat (pat_val p) = p"
proof (cases "p < 2 ^ 53")
  case True
  then have "bitlen p \<le> 53" by (simp only: bitlen_le_iff)
  then have "bitlen p - 53 = 0" by simp
  with True assms show ?thesis
    by (simp add: pat_val_small round_pat_def rne_0)
next
  case False
  define e where "e = p div 2 ^ 52"
  define f where "f = p mod 2 ^ 52"
  have e2: "2 \<le> e" unfolding e_def using False by (rule pat_big_exp)
  have v: "pat_val p = (2 ^ 52 + f) * 2 ^ (e - 1)"
    using False by (simp add: pat_val_big e_def f_def)
  have "bitlen (pat_val p) = Suc (e + 51)"
    unfolding e_def using pat_val_big_bounds [OF False] by (rule bitlen_eq)
  then have s: "bitlen (pat_val p) - 53 = e - 1" using e2 by simp
  have "(e - 1) * 2 ^ 52 + (2 ^ 52 + f) = e * 2 ^ 52 + f"
    using e2 by (cases e) simp_all
  also have "\<dots> = p" by (simp add: e_def f_def)
  finally have "(e - 1) * 2 ^ 52 + (2 ^ 52 + f) = p" .
  then have "(e - 1) * 2 ^ 52 + rne (pat_val p) (e - 1) = p"
    by (simp only: v rne_exact)
  with assms show ?thesis
    by (simp add: round_pat_def s)
qed

lemma pat_val_mono:
  assumes "p \<le> q"
  shows "pat_val p \<le> pat_val q"
proof (cases "q < 2 ^ 53")
  case True
  with assms show ?thesis by (simp add: pat_val_small)
next
  case qbig: False
  show ?thesis
  proof (cases "p < 2 ^ 53")
    case True
    have "(2::nat) ^ 53 \<le> 2 ^ (q div 2 ^ 52 + 51)"
      using pat_big_exp [OF qbig] by (intro power_increasing) simp_all
    also have "\<dots> \<le> pat_val q" using qbig by (rule pat_val_big_bounds)
    finally show ?thesis using True by (simp add: pat_val_small)
  next
    case pbig: False
    have ele: "p div 2 ^ 52 \<le> q div 2 ^ 52" using assms by (rule div_le_mono)
    show ?thesis
    proof (cases "p div 2 ^ 52 = q div 2 ^ 52")
      case True
      have "p div 2 ^ 52 * 2 ^ 52 + p mod 2 ^ 52 \<le> q div 2 ^ 52 * 2 ^ 52 + q mod 2 ^ 52"
        using assms by (simp only: div_mult_mod_eq)
      then have "p mod 2 ^ 52 \<le> q mod 2 ^ 52"
        unfolding True by (simp only: add_le_cancel_left)
      with True pbig qbig show ?thesis by (simp add: pat_val_big)
    next
      case False
      with ele have "Suc (p div 2 ^ 52 + 51) \<le> q div 2 ^ 52 + 51" by simp
      then have "(2::nat) ^ Suc (p div 2 ^ 52 + 51) \<le> 2 ^ (q div 2 ^ 52 + 51)"
        by (intro power_increasing) simp_all
      with pat_val_big_bounds(2) [OF pbig] pat_val_big_bounds(1) [OF qbig]
      show ?thesis by linarith
    qed
  qed
qed


section \<open>Doubles that are not negative\<close>

lemma INF_PAT_lt: "INF_PAT < 2 ^ 63"
  by (simp add: INF_PAT_def)

lemma unat_word_of_nat_64: "n < 2 ^ 64 \<Longrightarrow> unat (word_of_nat n :: 64 word) = n"
  by (simp add: unat_of_nat)

lemma f64_make_bits:
  assumes "p < 2 ^ 63"
  shows "unat (Float64bits (f64_make b p)) = (if b then 2 ^ 63 + p else p)"
proof -
  have "(2::nat) ^ 64 = 2 ^ 63 + 2 ^ 63" by simp
  with assms have "(if b then 2 ^ 63 + p else p) < 2 ^ 64"
    by (simp only: split: if_split) linarith
  then show ?thesis
    by (simp only: f64_make_def float64.sel unat_word_of_nat_64)
qed

lemma f64_pat_make: "p < 2 ^ 63 \<Longrightarrow> f64_pat (f64_make b p) = p"
  by (cases b) (simp_all only: f64_pat_def f64_make_bits if_True if_False mod_less mod_add_self1)

lemma f64_neg_make: "p < 2 ^ 63 \<Longrightarrow> f64_neg (f64_make b p) = b"
  by (cases b) (simp_all only: f64_neg_def f64_make_bits if_True if_False le_add1 not_le [symmetric] simp_thms)

lemma f64_pat_zero: "f64_pat f64_zero = 0"
  by (simp add: f64_pat_def f64_zero_def)


lemma f64_key_zero: "f64_key f64_zero = 0"
  by (simp add: f64_key_def f64_pat_zero)

lemma isNaN_zero: "\<not> isNaN f64_zero"
  by (simp add: isNaN_def f64_pat_zero)

lemma fge_zero_iff: "fge x f64_zero \<longleftrightarrow> \<not> isNaN x \<and> (f64_neg x \<longrightarrow> f64_pat x = 0)"
proof -
  have "0 \<le> f64_key x \<longleftrightarrow> (f64_neg x \<longrightarrow> f64_pat x = 0)"
    by (simp add: f64_key_def)
  then show ?thesis
    by (simp add: fge_def isNaN_zero f64_key_zero)
qed

lemma nonneg_key: "fge x f64_zero \<Longrightarrow> f64_key x = int (f64_pat x)"
  by (auto simp add: fge_zero_iff f64_key_def)

lemma nonneg_int: "fge x f64_zero \<Longrightarrow> f64_int x = int (pat_val (f64_pat x))"
  by (auto simp add: fge_zero_iff f64_int_def pat_val_small)

lemma nonneg_pat_le: "fge x f64_zero \<Longrightarrow> f64_pat x \<le> INF_PAT"
  by (simp add: fge_zero_iff isNaN_def)

lemma nonneg_fge:
  assumes "fge x f64_zero" and "fge y f64_zero"
  shows "fge x y \<longleftrightarrow> f64_pat y \<le> f64_pat x"
proof -
  have "\<not> isNaN x" "\<not> isNaN y" using assms by (simp_all add: fge_zero_iff)
  moreover have "f64_key x = int (f64_pat x)" "f64_key y = int (f64_pat y)"
    using assms by (simp_all add: nonneg_key)
  ultimately show ?thesis by (simp add: fge_def [of x y])
qed

lemma nonneg_feq: "fge x f64_zero \<Longrightarrow> fge y f64_zero \<Longrightarrow> feq x y \<longleftrightarrow> f64_pat x = f64_pat y"
  by (simp add: nonneg_key feq_def fge_zero_iff)

lemma nonneg_flt: "fge x f64_zero \<Longrightarrow> fge y f64_zero \<Longrightarrow> flt x y \<longleftrightarrow> f64_pat x < f64_pat y"
  by (simp add: nonneg_key flt_def fge_zero_iff)

lemma nonneg_make: "p \<le> INF_PAT \<Longrightarrow> fge (f64_make False p) f64_zero"
  using INF_PAT_lt by (simp add: fge_zero_iff isNaN_def f64_pat_make f64_neg_make)

lemma nonneg_make_zero: "fge (f64_make b 0) f64_zero"
  by (simp add: fge_zero_iff isNaN_def f64_pat_make f64_neg_make)

lemma fadd_nonneg:
  assumes x: "fge x f64_zero" and y: "fge y f64_zero"
  shows "fge (fadd x y) f64_zero" and "f64_pat (fadd x y) = fsum (f64_pat x) (f64_pat y)"
proof -
  have nx: "\<not> isNaN x" and ny: "\<not> isNaN y" using x y by (simp_all add: fge_zero_iff)
  have ix: "f64_int x = int (pat_val (f64_pat x))" and iy: "f64_int y = int (pat_val (f64_pat y))"
    using x y by (simp_all add: nonneg_int)
  have both: "fge (fadd x y) f64_zero \<and> f64_pat (fadd x y) = fsum (f64_pat x) (f64_pat y)"
  proof (cases "isInf x \<or> isInf y")
    case True
    have nnx: "isInf x \<Longrightarrow> \<not> f64_neg x" using x by (auto simp add: fge_zero_iff isInf_def INF_PAT_def)
    have nny: "isInf y \<Longrightarrow> \<not> f64_neg y" using y by (auto simp add: fge_zero_iff isInf_def INF_PAT_def)
    from True nnx nny have "fadd x y = (if isInf x then x else y)"
      by (auto simp add: fadd_def nx ny)
    with True x y show ?thesis
      by (auto simp add: fsum_def isInf_def)
  next
    case False
    then have fx: "\<not> isInf x" and fy: "\<not> isInf y" by simp_all
    define n where "n = pat_val (f64_pat x) + pat_val (f64_pat y)"
    have sum: "f64_int x + f64_int y = int n" by (simp add: ix iy n_def)
    have fs: "fsum (f64_pat x) (f64_pat y) = round_pat n"
      using fx fy by (simp add: fsum_def isInf_def n_def)
    show ?thesis
    proof (cases "n = 0")
      case True
      then have "fadd x y = f64_make (f64_neg x \<and> f64_neg y) 0"
        by (simp add: fadd_def nx ny fx fy sum)
      with True show ?thesis
        by (simp add: fs round_pat_0 nonneg_make_zero f64_pat_make)
    next
      case False
      then have "fadd x y = f64_make False (round_pat n)"
        by (simp add: fadd_def nx ny fx fy sum)
      then show ?thesis
        using round_pat_le_INF [of n] INF_PAT_lt
        by (simp add: fs nonneg_make f64_pat_make)
    qed
  qed
  from both show "fge (fadd x y) f64_zero" ..
  from both show "f64_pat (fadd x y) = fsum (f64_pat x) (f64_pat y)" ..
qed

lemma fsum_le_INF: "fsum p q \<le> INF_PAT"
  by (simp add: fsum_def round_pat_le_INF)

lemma fsum_mono:
  assumes "p \<le> p'" and "q \<le> q'" and "p' \<le> INF_PAT" and "q' \<le> INF_PAT"
  shows "fsum p q \<le> fsum p' q'"
proof (cases "p' = INF_PAT \<or> q' = INF_PAT")
  case True
  then have "fsum p' q' = INF_PAT" by (auto simp add: fsum_def)
  then show ?thesis by (simp add: fsum_le_INF)
next
  case False
  with assms have "p \<noteq> INF_PAT" "q \<noteq> INF_PAT" by auto
  with False show ?thesis
    using assms by (auto simp add: fsum_def intro!: round_pat_mono add_mono pat_val_mono)
qed

lemma fsum_zero_right: "p \<le> INF_PAT \<Longrightarrow> fsum p 0 = p"
  by (simp add: fsum_def pat_val_small round_pat_pat_val)

lemma fsum_ge_left:
  assumes "p \<le> INF_PAT" and "q \<le> INF_PAT"
  shows "p \<le> fsum p q"
proof -
  have "fsum p 0 \<le> fsum p q" using assms by (intro fsum_mono) simp_all
  with assms show ?thesis by (simp add: fsum_zero_right)
qed

lemma of_uint64_nonneg: "fge (float64_of_uint64 x) f64_zero"
  by (simp add: float64_of_uint64_def nonneg_make round_pat_le_INF)

lemma of_uint64_pat: "f64_pat (float64_of_uint64 x) = upat x"
  using round_pat_le_INF [of "unat x * ONE_UNITS"] INF_PAT_lt
  by (simp add: float64_of_uint64_def upat_def f64_pat_make)

lemma upat_mono: "unat x \<le> unat y \<Longrightarrow> upat x \<le> upat y"
  by (simp add: upat_def round_pat_mono)

lemma upat_le_INF: "upat x \<le> INF_PAT"
  by (simp add: upat_def round_pat_le_INF)

lemma upat_0: "upat 0 = 0"
  by (simp add: upat_def round_pat_0)

section \<open>Adding zero\<close>

lemma pat_val_eq_0: "pat_val p = 0 \<longleftrightarrow> p = 0"
proof (cases "p < 2 ^ 53")
  case True
  then show ?thesis by (simp add: pat_val_small)
next
  case False
  then have "p \<noteq> 0" by auto
  moreover have "pat_val p \<noteq> 0" using False by (simp add: pat_val_big)
  ultimately show ?thesis by simp
qed

lemma f64_pat_lt: "f64_pat x < 2 ^ 63"
  by (simp add: f64_pat_def)

lemma f64_key_make: "p < 2 ^ 63 \<Longrightarrow> f64_key (f64_make b p) = (if b then - int p else int p)"
  by (simp only: f64_key_def f64_pat_make f64_neg_make)

lemma isNaN_make: "p < 2 ^ 63 \<Longrightarrow> isNaN (f64_make b p) \<longleftrightarrow> INF_PAT < p"
  by (simp only: isNaN_def f64_pat_make)

lemma f64_key_remake: "f64_key (f64_make (f64_neg x) (f64_pat x)) = f64_key x"
  by (simp only: f64_key_def f64_pat_make [OF f64_pat_lt] f64_neg_make [OF f64_pat_lt])

lemma isNaN_remake: "isNaN (f64_make b (f64_pat x)) \<longleftrightarrow> isNaN x"
  by (simp only: isNaN_def f64_pat_make [OF f64_pat_lt])

lemma fadd_zero_right:
  assumes x: "\<not> isNaN x" and z: "f64_pat z = 0"
  shows "\<not> isNaN (fadd x z) \<and> f64_key (fadd x z) = f64_key x"
proof -
  have nz: "\<not> isNaN z" using z by (simp add: isNaN_def)
  have iz: "\<not> isInf z" using z by (simp add: isInf_def INF_PAT_def)
  have zz: "f64_int z = 0" using z by (simp add: f64_int_def pat_val_small)
  have px: "f64_pat x \<le> INF_PAT" using x by (simp add: isNaN_def)
  show ?thesis
  proof (cases "isInf x")
    case True
    then have "fadd x z = x" by (simp add: fadd_def x nz iz)
    with x show ?thesis by simp
  next
    case fin: False
    show ?thesis
    proof (cases "f64_pat x = 0")
      case True
      then have "f64_int x = 0" by (simp add: f64_int_def pat_val_small)
      then have "fadd x z = f64_make (f64_neg x \<and> f64_neg z) 0"
        by (simp add: fadd_def x nz iz fin zz)
      moreover have "f64_key x = 0" using True by (simp add: f64_key_def)
      ultimately show ?thesis
        by (simp add: f64_key_make isNaN_make)
    next
      case False
      then have pos: "0 < pat_val (f64_pat x)" using pat_val_eq_0 [of "f64_pat x"] by simp
      have n: "f64_int x + f64_int z = (if f64_neg x then - int (pat_val (f64_pat x)) else int (pat_val (f64_pat x)))"
        unfolding zz by (simp add: f64_int_def)
      have "fadd x z = f64_make (f64_neg x) (round_pat (pat_val (f64_pat x)))"
        using pos by (simp add: fadd_def x nz iz fin n Let_def)
      then have "fadd x z = f64_make (f64_neg x) (f64_pat x)"
        by (simp only: round_pat_pat_val [OF px])
      then show ?thesis
        using x by (simp only: f64_key_remake isNaN_remake simp_thms)
    qed
  qed
qed

lemma feq_fadd_zero_right: "\<not> isNaN x \<Longrightarrow> f64_pat z = 0 \<Longrightarrow> feq (fadd x z) x"
  using fadd_zero_right [of x z] by (simp add: feq_def)

lemma pat_val_one: "pat_val (1023 * 2 ^ 52) = ONE_UNITS"
proof -
  have "\<not> (1023 * 2 ^ 52 :: nat) < 2 ^ 53" by simp
  then have "pat_val (1023 * 2 ^ 52) = (2 ^ 52 + 1023 * 2 ^ 52 mod 2 ^ 52) * 2 ^ (1023 * 2 ^ 52 div 2 ^ 52 - 1)"
    by (rule pat_val_big)
  also have "\<dots> = 2 ^ 52 * 2 ^ 1022"
    by (simp only: mod_mult_self2_is_0 nonzero_mult_div_cancel_right power_not_zero
        zero_neq_numeral not_False_eq_True add_0_right diff_numeral_simps) simp
  also have "\<dots> = ONE_UNITS"
    by (simp only: ONE_UNITS_def power_add [symmetric]) simp
  finally show ?thesis .
qed

lemma upat_one: "upat 1 = 1023 * 2 ^ 52"
proof -
  have "upat 1 = round_pat (pat_val (1023 * 2 ^ 52))"
    by (simp only: upat_def pat_val_one unsigned_1 mult_1)
  also have "\<dots> = 1023 * 2 ^ 52"
    by (rule round_pat_pat_val) (simp add: INF_PAT_def)
  finally show ?thesis .
qed

lemma upat_eq_0_iff: "upat x = 0 \<longleftrightarrow> x = 0"
proof
  assume z: "upat x = 0"
  show "x = 0"
  proof (rule ccontr)
    assume "x \<noteq> 0"
    then have "unat (1 :: uint64) \<le> unat x" by (simp add: unat_gt_0 Suc_le_eq)
    then have "upat 1 \<le> upat x" by (rule upat_mono)
    with z show False by (simp add: upat_one)
  qed
next
  assume "x = 0"
  then show "upat x = 0" by (simp add: upat_0)
qed

lemma nonneg_zero: "fge f64_zero f64_zero"
  by (simp add: fge_def isNaN_zero)

lemma feq_of_uint64_zero: "feq (float64_of_uint64 x) f64_zero \<longleftrightarrow> x = 0"
  by (simp add: nonneg_feq of_uint64_nonneg nonneg_zero of_uint64_pat f64_pat_zero upat_eq_0_iff)

section \<open>What the rounding and the sort key mean\<close>

text \<open>
  \<open>rne\<close> is off by at most half a unit and breaks ties to the even side, and the
  magnitude of \<open>round_pat a\<close> is \<open>rne\<close> of \<open>a\<close> scaled back, so \<open>round_pat\<close> is rounding to
  the nearest double with ties to even. Magnitudes grow strictly with their patterns, so
  comparing doubles by \<open>f64_key\<close> is comparing their values.
\<close>

lemma rne_nearest:
  "2 * (rne a s * 2 ^ s) \<le> 2 * a + 2 ^ s" and "2 * a \<le> 2 * (rne a s * 2 ^ s) + 2 ^ s"
proof -
  define q where "q = a div 2 ^ s"
  define r where "r = a mod 2 ^ s"
  have a: "a = q * 2 ^ s + r" by (simp only: q_def r_def div_mult_mod_eq)
  have r: "r < 2 ^ s" by (simp add: r_def)
  have up: "rne a s = q + 1" if "2 ^ s < 2 * r \<or> (2 * r = 2 ^ s \<and> odd q)"
    using that by (simp add: rne_def Let_def q_def r_def)
  have down: "rne a s = q" if "\<not> (2 ^ s < 2 * r \<or> (2 * r = 2 ^ s \<and> odd q))"
    using that by (simp add: rne_def Let_def q_def r_def)
  show "2 * (rne a s * 2 ^ s) \<le> 2 * a + 2 ^ s"
  proof (cases "2 ^ s < 2 * r \<or> (2 * r = 2 ^ s \<and> odd q)")
    case True
    then have "2 ^ s \<le> 2 * r" by auto
    then have "2 * ((q + 1) * 2 ^ s) \<le> 2 * (q * 2 ^ s + r) + 2 ^ s"
      by (simp add: algebra_simps)
    then show ?thesis by (simp only: up [OF True] a [symmetric])
  next
    case False
    have "2 * (q * 2 ^ s) \<le> 2 * (q * 2 ^ s + r) + 2 ^ s" by simp
    then show ?thesis by (simp only: down [OF False] a [symmetric])
  qed
  show "2 * a \<le> 2 * (rne a s * 2 ^ s) + 2 ^ s"
  proof (cases "2 ^ s < 2 * r \<or> (2 * r = 2 ^ s \<and> odd q)")
    case True
    have "2 * (q * 2 ^ s + r) \<le> 2 * ((q + 1) * 2 ^ s) + 2 ^ s"
      using r by (simp add: algebra_simps)
    then show ?thesis by (simp only: up [OF True] a [symmetric])
  next
    case False
    then have "2 * r \<le> 2 ^ s" by auto
    then have "2 * (q * 2 ^ s + r) \<le> 2 * (q * 2 ^ s) + 2 ^ s"
      by (simp add: algebra_simps)
    then show ?thesis by (simp only: down [OF False] a [symmetric])
  qed
qed

lemma rne_tie_even: "2 * (a mod 2 ^ s) = 2 ^ s \<Longrightarrow> even (rne a s)"
  by (simp add: rne_def Let_def)

lemma round_pat_value:
  assumes fin: "(bitlen a - 53) * 2 ^ 52 + rne a (bitlen a - 53) \<le> INF_PAT"
  shows "pat_val (round_pat a) = rne a (bitlen a - 53) * 2 ^ (bitlen a - 53)"
proof -
  define s where "s = bitlen a - 53"
  define q where "q = rne a s"
  have rp: "round_pat a = s * 2 ^ 52 + q"
    using fin by (simp add: round_pat_def Let_def s_def q_def)
  show ?thesis
  proof (cases "s = 0")
    case True
    then have "bitlen a \<le> 53" by (simp add: s_def)
    then have small: "a < 2 ^ 53" by (simp only: bitlen_le_iff)
    have qa: "q = a" by (simp add: q_def True rne_0)
    have "pat_val (round_pat a) = a" using small by (simp add: rp True qa pat_val_small)
    also have "a = rne a s * 2 ^ s" by (simp add: True rne_0)
    finally show ?thesis by (simp only: s_def)
  next
    case False
    then have pos: "0 < bitlen a - 53" by (simp add: s_def)
    have lo: "2 ^ 52 \<le> q" unfolding q_def s_def using pos by (rule rne_ge_bot)
    have hi: "q \<le> 2 ^ 53" unfolding q_def s_def by (rule rne_le_top)
    from False obtain k where k: "s = Suc k" by (cases s) auto
    have big: "\<not> s * 2 ^ 52 + q < 2 ^ 53" using lo by (simp add: k)
    have v: "pat_val (s * 2 ^ 52 + q)
        = (2 ^ 52 + (s * 2 ^ 52 + q) mod 2 ^ 52) * 2 ^ ((s * 2 ^ 52 + q) div 2 ^ 52 - 1)"
      using big by (rule pat_val_big)
    show ?thesis
    proof (cases "q = 2 ^ 53")
      case True
      have "s * 2 ^ 52 + q = (s + 2) * 2 ^ 52" by (simp add: True)
      then have d: "(s * 2 ^ 52 + q) div 2 ^ 52 = s + 2" and m: "(s * 2 ^ 52 + q) mod 2 ^ 52 = 0"
        by simp_all
      have "pat_val (s * 2 ^ 52 + q) = 2 ^ 52 * 2 ^ Suc s"
        by (simp only: v d m) simp
      also have "\<dots> = q * 2 ^ s" by (simp add: True)
      finally show ?thesis by (simp only: rp q_def s_def)
    next
      case False
      with hi have lt: "q - 2 ^ 52 < 2 ^ 52" by simp
      have e: "s * 2 ^ 52 + q = (s + 1) * 2 ^ 52 + (q - 2 ^ 52)" using lo by simp
      have d: "(s * 2 ^ 52 + q) div 2 ^ 52 = s + 1"
        unfolding e using lt by (simp only: div_mult_self3 div_less)
      have m: "(s * 2 ^ 52 + q) mod 2 ^ 52 = q - 2 ^ 52"
        unfolding e using lt by (simp only: mod_mult_self3 mod_less)
      have "pat_val (s * 2 ^ 52 + q) = (2 ^ 52 + (q - 2 ^ 52)) * 2 ^ s"
        by (simp only: v d m) simp
      also have "2 ^ 52 + (q - 2 ^ 52) = q" using lo by simp
      finally show ?thesis by (simp only: rp q_def s_def)
    qed
  qed
qed

lemma pat_val_strict_mono:
  assumes "p < q" and "q \<le> INF_PAT"
  shows "pat_val p < pat_val q"
proof -
  have le: "pat_val p \<le> pat_val q" using assms(1) by (intro pat_val_mono) simp
  have "pat_val p \<noteq> pat_val q"
  proof
    assume "pat_val p = pat_val q"
    then have "round_pat (pat_val p) = round_pat (pat_val q)" by simp
    moreover have "p \<le> INF_PAT" using assms by simp
    ultimately have "p = q" using assms(2) by (simp add: round_pat_pat_val)
    with assms(1) show False by simp
  qed
  with le show ?thesis by simp
qed

lemma pat_val_less_iff:
  assumes "p \<le> INF_PAT" and "q \<le> INF_PAT"
  shows "pat_val p < pat_val q \<longleftrightarrow> p < q"
proof
  assume "p < q"
  then show "pat_val p < pat_val q" using assms(2) by (rule pat_val_strict_mono)
next
  assume l: "pat_val p < pat_val q"
  show "p < q"
  proof (rule ccontr)
    assume "\<not> p < q"
    then have "q \<le> p" by simp
    then have "pat_val q \<le> pat_val p" by (rule pat_val_mono)
    with l show False by simp
  qed
qed

lemma key_order_is_value_order:
  assumes "\<not> isNaN x" and "\<not> isNaN y"
  shows "f64_key x < f64_key y \<longleftrightarrow> f64_int x < f64_int y"
    and "f64_key x = f64_key y \<longleftrightarrow> f64_int x = f64_int y"
proof -
  define p where "p = f64_pat x"
  define q where "q = f64_pat y"
  have pq: "p \<le> INF_PAT" "q \<le> INF_PAT" using assms by (simp_all add: isNaN_def p_def q_def)
  have lt: "pat_val p < pat_val q \<longleftrightarrow> p < q" and gt: "pat_val q < pat_val p \<longleftrightarrow> q < p"
    using pq by (simp_all add: pat_val_less_iff)
  have eq: "pat_val p = pat_val q \<longleftrightarrow> p = q"
    using lt gt by (metis less_irrefl nat_neq_iff)
  have z: "pat_val p = 0 \<longleftrightarrow> p = 0" "pat_val q = 0 \<longleftrightarrow> q = 0"
    by (simp_all add: pat_val_eq_0)
  show "f64_key x < f64_key y \<longleftrightarrow> f64_int x < f64_int y"
    using lt gt z
    by (cases "f64_neg x"; cases "f64_neg y")
       (auto simp add: f64_key_def f64_int_def p_def [symmetric] q_def [symmetric])
  show "f64_key x = f64_key y \<longleftrightarrow> f64_int x = f64_int y"
    using eq z
    by (cases "f64_neg x"; cases "f64_neg y")
       (auto simp add: f64_key_def f64_int_def p_def [symmetric] q_def [symmetric])
qed

section \<open>One call of Add without concurrent writers\<close>

text \<open>
  Each compare-and-swap of \<open>Add_loop\<close> compares a register with the value just loaded
  from it, so with no other writer the first round leaves the loop, on one of three
  paths: the direct commit, the banking of the carry, or the fold of the carry.
\<close>

lemma Add_loop_direct:
  assumes "\<not> snd (addWithRoundingErrorChecking (Float64frombits (valBits c)) v)"
  shows "Add_loop ovf c v =
    Some (c\<lparr>valBits := Float64bits (fst (addWithRoundingErrorChecking (Float64frombits (valBits c)) v))\<rparr>)"
  using assms
  by (subst Add_loop.simps)
     (simp add: LoadUint64_def CompareAndSwapUint64_def StoreUint64_def Let_def case_prod_beta)

lemma Add_loop_bank:
  assumes "snd (addWithRoundingErrorChecking (Float64frombits (valBits c)) v)"
    and "snd (addWithRoundingErrorChecking (Float64frombits (valBits c))
            (float64_of_uint64 (change c + uint64_of_float64 ovf v)))"
  shows "Add_loop ovf c v = Some (c\<lparr>change := change c + uint64_of_float64 ovf v\<rparr>)"
  using assms
  by (subst Add_loop.simps)
     (simp add: LoadUint64_def CompareAndSwapUint64_def StoreUint64_def Let_def case_prod_beta)

lemma Add_loop_fold:
  assumes "snd (addWithRoundingErrorChecking (Float64frombits (valBits c)) v)"
    and "\<not> snd (addWithRoundingErrorChecking (Float64frombits (valBits c))
            (float64_of_uint64 (change c + uint64_of_float64 ovf v)))"
  shows "Add_loop ovf c v =
     Some (c\<lparr>valBits := Float64bits (fst (addWithRoundingErrorChecking (Float64frombits (valBits c))
            (float64_of_uint64 (change c + uint64_of_float64 ovf v)))), change := 0\<rparr>)"
  using assms
  by (subst Add_loop.simps)
     (simp add: LoadUint64_def CompareAndSwapUint64_def StoreUint64_def Let_def case_prod_beta)

lemma Add_loop_total: "Add_loop ovf c v \<noteq> None"
proof (cases "snd (addWithRoundingErrorChecking (Float64frombits (valBits c)) v)")
  case False
  then show ?thesis by (simp add: Add_loop_direct)
next
  case True
  then show ?thesis
    by (cases "snd (addWithRoundingErrorChecking (Float64frombits (valBits c))
            (float64_of_uint64 (change c + uint64_of_float64 ovf v)))")
       (simp_all add: Add_loop_bank Add_loop_fold)
qed

lemma flt_not_fge: "fge v w \<Longrightarrow> \<not> flt v w"
  by (simp add: fge_def flt_def)

lemma feq_not_flt: "feq v w \<Longrightarrow> \<not> flt v w"
  by (simp add: feq_def flt_def)

lemma Add_not_negative:
  "\<not> flt v f64_zero \<Longrightarrow> Add ovf c v = map_option (\<lambda>c'. (Returned (), c')) (Add_loop ovf c v)"
  by (simp add: Add_def)

lemma get_eq: "get c = (fadd (Float64frombits (valBits c)) (float64_of_uint64 (change c)), c)"
  by (simp add: get_def LoadUint64_def)

lemma Inc_eq: "Inc c = c\<lparr>change := change c + 1\<rparr>"
  by (simp add: Inc_def AddUint64_def LoadUint64_def StoreUint64_def Let_def)

section \<open>Evaluating sums and conversions at concrete doubles\<close>

text \<open>
  The magnitudes are numbers of some two thousand bits. These lemmas factor the common
  power of two out of a sum, so that a concrete sum is rounded on its significant bits
  alone.
\<close>

lemma bitlen_numeral_Bit0: "bitlen (numeral (Num.Bit0 k)) = Suc (bitlen (numeral k))"
proof -
  have "numeral (Num.Bit0 k) div 2 = (numeral k :: nat)" by simp
  then show ?thesis by (subst bitlen.simps) simp
qed

lemma bitlen_numeral_Bit1: "bitlen (numeral (Num.Bit1 k)) = Suc (bitlen (numeral k))"
proof -
  have "numeral (Num.Bit1 k) div 2 = (numeral k :: nat)" by simp
  then show ?thesis by (subst bitlen.simps) simp
qed

lemma bitlen_1: "bitlen 1 = 1"
  by (simp add: bitlen_pos bitlen_0)

lemma bitlen_Suc_0: "bitlen (Suc 0) = 1"
  by (simp add: bitlen_pos bitlen_0)

lemmas bitlen_eval = bitlen_0 bitlen_1 bitlen_Suc_0 bitlen_numeral_Bit0 bitlen_numeral_Bit1

lemma bitlen_mult_pow:
  assumes "0 < n"
  shows "bitlen (n * 2 ^ k) = bitlen n + k"
proof -
  from assms have "0 < bitlen n" using bitlen_le_iff [of n 0] by simp
  then obtain j where j: "bitlen n = Suc j" by (cases "bitlen n") auto
  have lo: "2 ^ j \<le> n" using bitlen_lower [of n] by (simp add: j)
  have hi: "n < 2 ^ Suc j" using bitlen_upper [of n] by (simp only: j)
  have "2 ^ j * 2 ^ k \<le> n * 2 ^ k" using lo by (rule mult_le_mono1)
  then have lo': "2 ^ (j + k) \<le> n * 2 ^ k" by (simp only: power_add)
  have "n * 2 ^ k < 2 ^ Suc j * 2 ^ k"
    using hi by (simp only: mult_less_cancel2 zero_less_power zero_less_numeral simp_thms)
  moreover have "(2::nat) ^ Suc j * 2 ^ k = 2 ^ Suc (j + k)"
    by (simp only: power_add [symmetric] add_Suc)
  ultimately have hi': "n * 2 ^ k < 2 ^ Suc (j + k)" by (simp only:)
  from lo' hi' have "bitlen (n * 2 ^ k) = Suc (j + k)" by (rule bitlen_eq)
  then show ?thesis by (simp add: j)
qed

lemma rne_scale:
  assumes "k \<le> s"
  shows "rne (n * 2 ^ k) s = rne n (s - k)"
proof -
  have p: "(2::nat) ^ s = 2 ^ (s - k) * 2 ^ k"
    using assms by (simp add: power_add [symmetric])
  have "(n * 2 ^ k) div (2 ^ (s - k) * 2 ^ k) = n div 2 ^ (s - k)"
    by simp
  then have d: "(n * 2 ^ k) div 2 ^ s = n div 2 ^ (s - k)"
    by (simp only: p [symmetric])
  have "(n * 2 ^ k) mod (2 ^ (s - k) * 2 ^ k) = (n mod 2 ^ (s - k)) * 2 ^ k"
    by (rule mult_mod_left [symmetric])
  then have m: "(n * 2 ^ k) mod 2 ^ s = (n mod 2 ^ (s - k)) * 2 ^ k"
    by (simp only: p [symmetric])
  have c1: "2 ^ s < 2 * ((n mod 2 ^ (s - k)) * 2 ^ k) \<longleftrightarrow> 2 ^ (s - k) < 2 * (n mod 2 ^ (s - k))"
    by (simp only: p mult.assoc [symmetric] mult_less_cancel2) simp
  have c2: "2 * ((n mod 2 ^ (s - k)) * 2 ^ k) = 2 ^ s \<longleftrightarrow> 2 * (n mod 2 ^ (s - k)) = 2 ^ (s - k)"
    by (simp only: p mult.assoc [symmetric] mult_cancel2) simp
  show ?thesis
    by (simp only: rne_def Let_def d m c1 c2)
qed

lemma round_pat_scaled:
  assumes "0 < n" and "53 \<le> bitlen n"
  shows "round_pat (n * 2 ^ k) = min INF_PAT ((bitlen n + k - 53) * 2 ^ 52 + rne n (bitlen n - 53))"
proof -
  have s: "bitlen (n * 2 ^ k) - 53 = bitlen n + k - 53"
    using assms(1) by (simp add: bitlen_mult_pow)
  have "k \<le> bitlen n + k - 53" using assms(2) by simp
  then have "rne (n * 2 ^ k) (bitlen n + k - 53) = rne n (bitlen n + k - 53 - k)"
    by (rule rne_scale)
  also have "bitlen n + k - 53 - k = bitlen n - 53" by simp
  finally show ?thesis by (simp add: round_pat_def s)
qed

lemma round_pat_scaled_small:
  assumes "0 < n" and "bitlen n \<le> 53" and "53 \<le> bitlen n + k"
  shows "round_pat (n * 2 ^ k) = min INF_PAT ((bitlen n + k - 53) * 2 ^ 52 + n * 2 ^ (53 - bitlen n))"
proof -
  define s where "s = bitlen n + k - 53"
  have s: "bitlen (n * 2 ^ k) - 53 = s"
    using assms(1) by (simp add: bitlen_mult_pow s_def)
  have ks: "k = (53 - bitlen n) + s" using assms by (simp add: s_def)
  have "n * 2 ^ k = (n * 2 ^ (53 - bitlen n)) * 2 ^ s"
    by (subst ks) (simp only: power_add mult.assoc)
  then have "rne (n * 2 ^ k) s = n * 2 ^ (53 - bitlen n)"
    by (simp only: rne_exact)
  then show ?thesis by (simp add: round_pat_def s s_def [symmetric])
qed

lemma pat_val_normal:
  assumes "2 ^ 52 \<le> p"
  shows "pat_val p = (2 ^ 52 + p mod 2 ^ 52) * 2 ^ (p div 2 ^ 52 - 1)"
proof (cases "p < 2 ^ 53")
  case False
  then show ?thesis by (rule pat_val_big)
next
  case True
  with assms have "p div 2 ^ 52 = 1"
    by (intro div_nat_eqI) simp_all
  moreover have "p = (p div 2 ^ 52) * 2 ^ 52 + p mod 2 ^ 52"
    by (simp only: div_mult_mod_eq)
  ultimately have "p = 2 ^ 52 + p mod 2 ^ 52" by (simp only: mult_1)
  with True \<open>p div 2 ^ 52 = 1\<close> show ?thesis
    by (simp only: pat_val_small diff_self_eq_0 power_0 mult_1_right)
qed

lemma fsum_commute: "fsum p q = fsum q p"
  by (simp add: fsum_def add.commute disj_commute)

lemma fsum_eval:
  assumes "2 ^ 52 \<le> q" and "q \<le> p" and "p < INF_PAT"
  shows "fsum p q =
    min INF_PAT
      ((bitlen ((2 ^ 52 + p mod 2 ^ 52) * 2 ^ (p div 2 ^ 52 - q div 2 ^ 52) + (2 ^ 52 + q mod 2 ^ 52))
          + (q div 2 ^ 52 - 1) - 53) * 2 ^ 52
       + rne ((2 ^ 52 + p mod 2 ^ 52) * 2 ^ (p div 2 ^ 52 - q div 2 ^ 52) + (2 ^ 52 + q mod 2 ^ 52))
           (bitlen ((2 ^ 52 + p mod 2 ^ 52) * 2 ^ (p div 2 ^ 52 - q div 2 ^ 52) + (2 ^ 52 + q mod 2 ^ 52))
              - 53))"
proof -
  define e1 where "e1 = p div 2 ^ 52"
  define e2 where "e2 = q div 2 ^ 52"
  define m1 where "m1 = 2 ^ 52 + p mod 2 ^ 52"
  define m2 where "m2 = 2 ^ 52 + q mod 2 ^ 52"
  define n where "n = m1 * 2 ^ (e1 - e2) + m2"
  have e21: "e2 \<le> e1" unfolding e1_def e2_def using assms(2) by (rule div_le_mono)
  have "1 \<le> q div 2 ^ 52"
    using assms(1) by (simp only: less_eq_div_iff_mult_less_eq zero_less_power zero_less_numeral mult_1)
  then have e2: "1 \<le> e2" by (simp only: e2_def)
  have p52: "2 ^ 52 \<le> p" using assms by simp
  have vp: "pat_val p = m1 * 2 ^ (e1 - 1)"
    using pat_val_normal [OF p52] by (simp only: m1_def e1_def)
  have vq: "pat_val q = m2 * 2 ^ (e2 - 1)"
    using pat_val_normal [OF assms(1)] by (simp only: m2_def e2_def)
  have ex: "e1 - 1 = (e1 - e2) + (e2 - 1)" using e21 e2 by simp
  have sum: "pat_val p + pat_val q = n * 2 ^ (e2 - 1)"
    by (simp only: vp vq n_def add_mult_distrib mult.assoc power_add [symmetric] ex [symmetric])
  have "2 ^ 52 \<le> m2" by (simp add: m2_def)
  moreover have "2 ^ 52 * 1 \<le> m1 * 2 ^ (e1 - e2)"
    by (intro mult_le_mono) (simp_all add: m1_def)
  ultimately have "2 ^ 52 + 2 ^ 52 \<le> n" unfolding n_def by linarith
  then have n53: "2 ^ 53 \<le> n" by simp
  then have npos: "0 < n" by (simp add: less_le_trans [of 0 "2 ^ 53"])
  have "\<not> bitlen n \<le> 53" using n53 by (simp only: bitlen_le_iff not_less)
  then have b53: "53 \<le> bitlen n" by simp
  have fin: "p \<noteq> INF_PAT" "q \<noteq> INF_PAT" using assms by simp_all
  have "fsum p q = round_pat (n * 2 ^ (e2 - 1))"
    using fin by (simp only: fsum_def sum simp_thms if_False)
  also have "\<dots> = min INF_PAT ((bitlen n + (e2 - 1) - 53) * 2 ^ 52 + rne n (bitlen n - 53))"
    using npos b53 by (rule round_pat_scaled)
  finally show ?thesis
    by (simp only: n_def m1_def m2_def e1_def e2_def)
qed

lemma ONE_UNITS_pos: "0 < ONE_UNITS"
  by (simp only: ONE_UNITS_def zero_less_power zero_less_numeral)

lemma upat_eval:
  assumes "0 < unat x"
  shows "upat x =
    (if 53 \<le> bitlen (unat x)
     then min INF_PAT ((bitlen (unat x) + 1021) * 2 ^ 52 + rne (unat x) (bitlen (unat x) - 53))
     else min INF_PAT ((bitlen (unat x) + 1021) * 2 ^ 52 + unat x * 2 ^ (53 - bitlen (unat x))))"
proof (cases "53 \<le> bitlen (unat x)")
  case True
  have "bitlen (unat x) + 1074 - 53 = bitlen (unat x) + 1021" by simp
  with round_pat_scaled [OF assms True, of 1074] True show ?thesis
    by (simp only: upat_def ONE_UNITS_def if_True)
next
  case False
  then have le: "bitlen (unat x) \<le> 53" by simp
  have "bitlen (unat x) + 1074 - 53 = bitlen (unat x) + 1021" by simp
  with round_pat_scaled_small [OF assms le, of 1074] False show ?thesis
    by (simp only: upat_def ONE_UNITS_def if_False)
qed

lemma f64_remake: "f64_make (f64_neg x) (f64_pat x) = x"
proof -
  define w where "w = Float64bits x"
  have lt: "unat w < 2 ^ 64" using unsigned_less [of w] by simp
  have "(if 2 ^ 63 \<le> unat w then 2 ^ 63 + unat w mod 2 ^ 63 else unat w mod 2 ^ 63) = unat w"
  proof (cases "2 ^ 63 \<le> unat w")
    case True
    with lt have "unat w - 2 ^ 63 < 2 ^ 63" by simp
    then have "(unat w - 2 ^ 63) mod 2 ^ 63 = unat w - 2 ^ 63" by (rule mod_less)
    moreover have "unat w mod 2 ^ 63 = (unat w - 2 ^ 63) mod 2 ^ 63"
      using True by (simp only: le_mod_geq)
    ultimately have "unat w mod 2 ^ 63 = unat w - 2 ^ 63" by (simp only:)
    with True show ?thesis by (simp only: if_True le_add_diff_inverse)
  next
    case False
    then have "unat w mod 2 ^ 63 = unat w" by (simp only: not_le mod_less)
    with False show ?thesis by (simp only: if_False)
  qed
  then have "word_of_nat (if 2 ^ 63 \<le> unat w then 2 ^ 63 + unat w mod 2 ^ 63 else unat w mod 2 ^ 63) = w"
    by simp
  then have "Float64frombits (word_of_nat (if 2 ^ 63 \<le> unat w then 2 ^ 63 + unat w mod 2 ^ 63 else unat w mod 2 ^ 63)) = x"
    by (simp only: w_def float64.collapse)
  then show ?thesis
    by (simp only: f64_make_def f64_neg_def f64_pat_def w_def)
qed

lemma fadd_nonneg_sign:
  assumes x: "fge x f64_zero" and y: "fge y f64_zero" and s: "\<not> f64_neg x \<or> \<not> f64_neg y"
  shows "\<not> f64_neg (fadd x y)"
proof -
  have nx: "\<not> isNaN x" and ny: "\<not> isNaN y" using x y by (simp_all add: fge_zero_iff)
  have ix: "f64_int x = int (pat_val (f64_pat x))" and iy: "f64_int y = int (pat_val (f64_pat y))"
    using x y by (simp_all add: nonneg_int)
  show ?thesis
  proof (cases "isInf x \<or> isInf y")
    case True
    have nnx: "isInf x \<Longrightarrow> \<not> f64_neg x" using x by (auto simp add: fge_zero_iff isInf_def INF_PAT_def)
    have nny: "isInf y \<Longrightarrow> \<not> f64_neg y" using y by (auto simp add: fge_zero_iff isInf_def INF_PAT_def)
    from True nnx nny have "fadd x y = (if isInf x then x else y)"
      by (auto simp add: fadd_def nx ny)
    with True nnx nny show ?thesis by auto
  next
    case False
    then have fx: "\<not> isInf x" and fy: "\<not> isInf y" by simp_all
    define n where "n = pat_val (f64_pat x) + pat_val (f64_pat y)"
    have sum: "f64_int x + f64_int y = int n" by (simp add: ix iy n_def)
    have "fadd x y = f64_make (n = 0 \<and> f64_neg x \<and> f64_neg y) (if n = 0 then 0 else round_pat n)"
      by (simp add: fadd_def nx ny fx fy sum)
    moreover have "(if n = 0 then 0 else round_pat n) < 2 ^ 63"
      using round_pat_le_INF [of n] INF_PAT_lt by simp
    ultimately show ?thesis
      using s by (simp only: f64_neg_make) simp
  qed
qed

lemma fadd_bits:
  assumes "fge x f64_zero" and "fge y f64_zero" and "\<not> f64_neg x \<or> \<not> f64_neg y"
  shows "fadd x y = f64_make False (fsum (f64_pat x) (f64_pat y))"
proof -
  have "fadd x y = f64_make (f64_neg (fadd x y)) (f64_pat (fadd x y))"
    by (simp only: f64_remake)
  then show ?thesis
    by (simp only: fadd_nonneg_sign [OF assms] fadd_nonneg(2) [OF assms(1,2)])
qed

lemma nonneg_frombits: "unat w \<le> INF_PAT \<Longrightarrow> fge (Float64frombits w) f64_zero"
  using INF_PAT_lt by (simp add: fge_zero_iff isNaN_def f64_pat_def f64_neg_def)

lemma pat_frombits: "unat w \<le> INF_PAT \<Longrightarrow> f64_pat (Float64frombits w) = unat w"
  using INF_PAT_lt by (simp add: f64_pat_def)

lemma neg_frombits: "unat w \<le> INF_PAT \<Longrightarrow> \<not> f64_neg (Float64frombits w)"
  using INF_PAT_lt by (simp add: f64_neg_def)

lemma fadd_frombits:
  assumes "unat a \<le> INF_PAT" and "unat b \<le> INF_PAT"
  shows "fadd (Float64frombits a) (Float64frombits b) = Float64frombits (word_of_nat (fsum (unat a) (unat b)))"
  using fadd_bits [of "Float64frombits a" "Float64frombits b"] assms
  by (simp add: nonneg_frombits pat_frombits neg_frombits f64_make_def)

lemma of_uint64_bits: "float64_of_uint64 x = Float64frombits (word_of_nat (upat x))"
  by (simp add: float64_of_uint64_def upat_def f64_make_def)

lemma uint64_of_float64_small:
  assumes lo: "2 ^ 52 \<le> unat w" and hi: "unat w div 2 ^ 52 \<le> 1075"
  shows "uint64_of_float64 ovf (Float64frombits w)
           = word_of_nat ((2 ^ 52 + unat w mod 2 ^ 52) div 2 ^ (1075 - unat w div 2 ^ 52))"
proof -
  define p where "p = unat w"
  define e where "e = p div 2 ^ 52"
  define m where "m = 2 ^ 52 + p mod 2 ^ 52"
  have e1: "1 \<le> e"
    using lo unfolding e_def p_def
    by (simp only: less_eq_div_iff_mult_less_eq zero_less_power zero_less_numeral mult_1)
  have e2: "e \<le> 1075" using hi by (simp only: e_def p_def)
  have "p = e * 2 ^ 52 + p mod 2 ^ 52" by (simp only: e_def div_mult_mod_eq)
  moreover have "p mod 2 ^ 52 < 2 ^ 52" by simp
  moreover have "e * 2 ^ 52 \<le> 1075 * 2 ^ 52" using e2 by (rule mult_le_mono1)
  ultimately have "p < 1075 * 2 ^ 52 + 2 ^ 52" by linarith
  then have pinf: "p < INF_PAT" by (simp add: INF_PAT_def)
  then have ple: "unat w \<le> INF_PAT" by (simp add: p_def)
  have v: "pat_val p = m * 2 ^ (e - 1)"
    using pat_val_normal [of p] lo by (simp only: p_def m_def e_def)
  have m53: "m < 2 ^ 53" by (simp add: m_def)
  have split: "(1074::nat) = (1075 - e) + (e - 1)" using e1 e2 by simp
  have one: "ONE_UNITS = 2 ^ (1075 - e) * 2 ^ (e - 1)"
    by (simp only: ONE_UNITS_def power_add [symmetric] split [symmetric])
  have dv: "pat_val p div ONE_UNITS = m div 2 ^ (1075 - e)"
    by (simp only: v one) simp
  have "m * 2 ^ (e - 1) < 2 ^ 53 * 2 ^ (e - 1)"
    using m53 by (simp only: mult_less_cancel2 zero_less_power zero_less_numeral simp_thms)
  also have "\<dots> \<le> 2 ^ 64 * (2 ^ (1075 - e) * 2 ^ (e - 1))"
    by (intro mult_le_mono) simp_all
  finally have rng: "pat_val p < 2 ^ 64 * ONE_UNITS" by (simp only: v one)
  have i: "f64_int (Float64frombits w) = int (pat_val p)"
    using nonneg_int [OF nonneg_frombits [OF ple]] by (simp only: pat_frombits [OF ple] p_def)
  have nn: "\<not> isNaN (Float64frombits w)" "\<not> isInf (Float64frombits w)"
    using pinf by (simp_all only: isNaN_def isInf_def pat_frombits [OF ple] p_def [symmetric])
  have c1: "- int ONE_UNITS < int (pat_val p)" using ONE_UNITS_pos by linarith
  have c2: "int (pat_val p) < int (2 ^ 64 * ONE_UNITS)" using rng by (simp only: of_nat_less_iff)
  have "uint64_of_float64 ovf (Float64frombits w) = word_of_nat (nat \<bar>int (pat_val p)\<bar> div ONE_UNITS)"
    using nn c1 c2 by (simp only: uint64_of_float64_def i simp_thms if_True)
  also have "nat \<bar>int (pat_val p)\<bar> = pat_val p" by simp
  finally have "uint64_of_float64 ovf (Float64frombits w) = word_of_nat (pat_val p div ONE_UNITS)" .
  then show ?thesis
    unfolding dv unfolding m_def e_def p_def .
qed


lemma fsum_zero_left: "p \<le> INF_PAT \<Longrightarrow> fsum 0 p = p"
  by (simp only: fsum_commute [of 0 p] fsum_zero_right)

lemma uint64_of_float64_big:
  assumes lo: "1075 \<le> unat w div 2 ^ 52"
    and hi: "(2 ^ 52 + unat w mod 2 ^ 52) * 2 ^ (unat w div 2 ^ 52 - 1075) < 2 ^ 64"
  shows "uint64_of_float64 ovf (Float64frombits w)
           = word_of_nat ((2 ^ 52 + unat w mod 2 ^ 52) * 2 ^ (unat w div 2 ^ 52 - 1075))"
proof -
  define p where "p = unat w"
  define e where "e = p div 2 ^ 52"
  define m where "m = 2 ^ 52 + p mod 2 ^ 52"
  have e1: "1075 \<le> e" using lo by (simp only: e_def p_def)
  have mhi: "m * 2 ^ (e - 1075) < 2 ^ 64" using hi by (simp only: m_def e_def p_def)
  have "2 ^ 52 * 2 ^ (e - 1075) \<le> m * 2 ^ (e - 1075)"
    by (rule mult_le_mono1) (simp add: m_def)
  with mhi have "(2::nat) ^ (52 + (e - 1075)) < 2 ^ 64" by (simp only: power_add)
  then have "52 + (e - 1075) < 64"
    by (simp only: power_strict_increasing_iff one_less_numeral_iff semiring_norm)
  then have e2: "e < 1087" using e1 by simp
  have "1075 * 2 ^ 52 \<le> e * 2 ^ 52" using e1 by (rule mult_le_mono1)
  moreover have "e * 2 ^ 52 \<le> p"
    unfolding e_def by (rule div_times_less_eq_dividend)
  ultimately have p52: "2 ^ 52 \<le> p" by simp
  have "p = e * 2 ^ 52 + p mod 2 ^ 52" by (simp only: e_def div_mult_mod_eq)
  moreover have "p mod 2 ^ 52 < 2 ^ 52" by simp
  moreover have "e * 2 ^ 52 \<le> 1086 * 2 ^ 52" using e2 by (intro mult_le_mono1) simp
  ultimately have "p < 1086 * 2 ^ 52 + 2 ^ 52" by linarith
  then have pinf: "p < INF_PAT" by (simp add: INF_PAT_def)
  then have ple: "unat w \<le> INF_PAT" by (simp add: p_def)
  have v: "pat_val p = m * 2 ^ (e - 1)"
    using pat_val_normal [of p] p52 by (simp only: p_def m_def e_def)
  have split: "e - 1 = (e - 1075) + 1074" using e1 by simp
  have vv: "pat_val p = (m * 2 ^ (e - 1075)) * ONE_UNITS"
    by (simp only: v split power_add ONE_UNITS_def mult.assoc)
  have dv: "pat_val p div ONE_UNITS = m * 2 ^ (e - 1075)"
    using ONE_UNITS_pos by (simp only: vv) simp
  have rng: "pat_val p < 2 ^ 64 * ONE_UNITS"
    using mhi ONE_UNITS_pos by (simp only: vv mult_less_cancel2 simp_thms)
  have i: "f64_int (Float64frombits w) = int (pat_val p)"
    using nonneg_int [OF nonneg_frombits [OF ple]] by (simp only: pat_frombits [OF ple] p_def)
  have nn: "\<not> isNaN (Float64frombits w)" "\<not> isInf (Float64frombits w)"
    using pinf by (simp_all only: isNaN_def isInf_def pat_frombits [OF ple] p_def [symmetric])
  have c1: "- int ONE_UNITS < int (pat_val p)" using ONE_UNITS_pos by linarith
  have c2: "int (pat_val p) < int (2 ^ 64 * ONE_UNITS)" using rng by (simp only: of_nat_less_iff)
  have "uint64_of_float64 ovf (Float64frombits w) = word_of_nat (nat \<bar>int (pat_val p)\<bar> div ONE_UNITS)"
    using nn c1 c2 by (simp only: uint64_of_float64_def i simp_thms if_True)
  also have "nat \<bar>int (pat_val p)\<bar> = pat_val p" by simp
  finally have "uint64_of_float64 ovf (Float64frombits w) = word_of_nat (pat_val p div ONE_UNITS)" .
  then show ?thesis
    unfolding dv unfolding m_def e_def p_def .
qed

text \<open>
  \<open>f64_eval\<close> evaluates sums and conversions of concrete doubles that are not negative,
  \<open>f64_cmp\<close> their comparisons.
\<close>

lemmas f64_eval = of_uint64_bits upat_eval upat_0 bitlen_eval rne_def INF_PAT_def fadd_frombits fsum_eval
  fsum_zero_left fsum_zero_right uint64_of_float64_small uint64_of_float64_big

lemmas f64_cmp = feq_def flt_def fge_def isNaN_def f64_key_def f64_pat_def f64_neg_def f64_zero_def
  INF_PAT_def

section \<open>The rounding-loss path of Add\<close>

text \<open>
  What the loop does once the rounding check has reported a loss. When
  \<^verbatim>\<open>oldChange+u\<close> is 0 the second check takes its \<^verbatim>\<open>addend == 0\<close> exit and the loop
  stores the bits of the base and a carry of 0: the same counter as banking that 0.
\<close>

lemma rounding_check_cases:
  "addWithRoundingErrorChecking base addend =
     (if feq addend f64_zero then (base, False) else (fadd base addend, feq (fadd base addend) base))"
  by (simp add: addWithRoundingErrorChecking_def Let_def)

lemma Add_loop_rounding_path:
  assumes r: "snd (addWithRoundingErrorChecking (Float64frombits (valBits c)) v)"
  shows "Add_loop ovf c v = Some
     (if feq (fadd (Float64frombits (valBits c))
                (float64_of_uint64 (change c + uint64_of_float64 ovf v)))
             (Float64frombits (valBits c))
      then c\<lparr>change := change c + uint64_of_float64 ovf v\<rparr>
      else c\<lparr>valBits := Float64bits (fadd (Float64frombits (valBits c))
                (float64_of_uint64 (change c + uint64_of_float64 ovf v))),
             change := 0\<rparr>)"
proof -
  define base where "base = Float64frombits (valBits c)"
  define s where "s = change c + uint64_of_float64 ovf v"
  define t where "t = fadd base (float64_of_uint64 s)"
  from r have "feq (fadd base v) base"
    by (simp add: rounding_check_cases base_def split: if_splits)
  then have nb: "\<not> isNaN base" by (simp add: feq_def)
  have loop: "Add_loop ovf c v =
      Some (if feq t base then c\<lparr>change := s\<rparr> else c\<lparr>valBits := Float64bits t, change := 0\<rparr>)"
  proof (cases "s = 0")
    case True
    then have z: "feq (float64_of_uint64 s) f64_zero" by (simp add: feq_of_uint64_zero)
    then have chk: "addWithRoundingErrorChecking base (float64_of_uint64 s) = (base, False)"
      by (simp add: rounding_check_cases)
    have "Add_loop ovf c v = Some (c\<lparr>valBits := Float64bits base, change := 0\<rparr>)"
      using r chk Add_loop_fold [of c v ovf] by (simp add: base_def s_def)
    moreover have "c\<lparr>valBits := Float64bits base, change := 0\<rparr> = c\<lparr>change := s\<rparr>"
      using True by (simp add: base_def)
    moreover have "feq t base"
      unfolding t_def using nb by (rule feq_fadd_zero_right) (simp add: True of_uint64_pat upat_0)
    ultimately show ?thesis by simp
  next
    case False
    then have "\<not> feq (float64_of_uint64 s) f64_zero" by (simp add: feq_of_uint64_zero)
    then have chk: "addWithRoundingErrorChecking base (float64_of_uint64 s) = (t, feq t base)"
      by (simp add: rounding_check_cases t_def)
    show ?thesis
    proof (cases "feq t base")
      case True
      with r chk Add_loop_bank [of c v ovf] show ?thesis by (simp add: base_def s_def)
    next
      case False
      with r chk Add_loop_fold [of c v ovf] show ?thesis by (simp add: base_def s_def)
    qed
  qed
  show ?thesis
    using loop unfolding t_def s_def base_def .
qed

lemma Add_eval_lost:
  assumes "fge v f64_zero"
    and "snd (addWithRoundingErrorChecking (Float64frombits (valBits c)) v)"
    and "(if feq (fadd (Float64frombits (valBits c))
                (float64_of_uint64 (change c + uint64_of_float64 ovf v)))
             (Float64frombits (valBits c))
      then c\<lparr>change := change c + uint64_of_float64 ovf v\<rparr>
      else c\<lparr>valBits := Float64bits (fadd (Float64frombits (valBits c))
                (float64_of_uint64 (change c + uint64_of_float64 ovf v))),
             change := 0\<rparr>) = c'"
  shows "Add ovf c v = Some (Returned (), c')"
  using Add_loop_rounding_path [OF assms(2), of ovf] flt_not_fge [OF assms(1)] assms(3)
  by (simp add: Add_not_negative)

lemma Add_eval_direct:
  assumes "\<not> flt v f64_zero"
    and "\<not> snd (addWithRoundingErrorChecking (Float64frombits (valBits c)) v)"
    and "c\<lparr>valBits := Float64bits (fst (addWithRoundingErrorChecking (Float64frombits (valBits c)) v))\<rparr> = c'"
  shows "Add ovf c v = Some (Returned (), c')"
  using Add_loop_direct [OF assms(2), of ovf] assms(1,3) by (simp add: Add_not_negative)

section \<open>Reads along a sequential run\<close>

text \<open>
  While the float register is not negative and the carry does not wrap, each operation
  keeps the register not negative and the value read does not go down: the patterns of
  the reads are \<open>fsum\<close> of the base pattern and \<open>upat\<close> of the carry, both monotone.
\<close>

lemma read_pat:
  assumes "fge (Float64frombits (valBits c)) f64_zero"
  shows "fge (fst (get c)) f64_zero"
    and "f64_pat (fst (get c)) = fsum (f64_pat (Float64frombits (valBits c))) (upat (change c))"
  using fadd_nonneg [OF assms of_uint64_nonneg, of "change c"]
  by (simp_all add: get_eq of_uint64_pat)

lemma unat_add_nowrap:
  "unat (a :: uint64) + unat b < 2 ^ 64 \<Longrightarrow> unat (a + b) = unat a + unat b"
  using unat_add_lem [of a b] by simp

lemma step_Inc:
  assumes b: "fge (Float64frombits (valBits c)) f64_zero" and nw: "\<not> carry_wraps ovf c OpInc"
  shows "fge (Float64frombits (valBits (Inc c))) f64_zero \<and> fge (fst (get (Inc c))) (fst (get c))"
proof -
  have vb: "valBits (Inc c) = valBits c" and ch: "change (Inc c) = change c + 1"
    by (simp_all add: Inc_eq)
  from nw have "unat (change c) + unat (1 :: uint64) < 2 ^ 64" by simp
  then have "unat (change c + 1) = unat (change c) + unat (1 :: uint64)" by (rule unat_add_nowrap)
  then have "unat (change c) \<le> unat (change (Inc c))" by (simp add: ch)
  then have "upat (change c) \<le> upat (change (Inc c))" by (rule upat_mono)
  then have "fsum (f64_pat (Float64frombits (valBits c))) (upat (change c))
      \<le> fsum (f64_pat (Float64frombits (valBits c))) (upat (change (Inc c)))"
    using nonneg_pat_le [OF b] by (intro fsum_mono) (simp_all add: upat_le_INF)
  moreover have b': "fge (Float64frombits (valBits (Inc c))) f64_zero" using b by (simp add: vb)
  ultimately show ?thesis
    using read_pat [OF b] read_pat [OF b']
    by (simp add: nonneg_fge vb)
qed

lemma step_Add:
  assumes b: "fge (Float64frombits (valBits c)) f64_zero"
    and v: "fge v f64_zero"
    and nw: "\<not> carry_wraps ovf c (OpAdd v)"
  shows "\<exists>c'. Add ovf c v = Some (Returned (), c')
           \<and> fge (Float64frombits (valBits c')) f64_zero
           \<and> fge (fst (get c')) (fst (get c))"
proof -
  define base where "base = Float64frombits (valBits c)"
  define B where "B = f64_pat base"
  have bb: "fge base f64_zero" using b by (simp add: base_def)
  have Ble: "B \<le> INF_PAT" unfolding B_def using bb by (rule nonneg_pat_le)
  have rd: "f64_pat (fst (get c)) = fsum B (upat (change c))" and rdn: "fge (fst (get c)) f64_zero"
    using read_pat [OF b] by (simp_all add: B_def base_def)
  have nneg: "\<not> flt v f64_zero" using v by (rule flt_not_fge)
  have goal: "fge (Float64frombits (valBits c')) f64_zero \<and> fge (fst (get c')) (fst (get c))"
    if nb: "fge (Float64frombits (valBits c')) f64_zero"
      and le: "fsum B (upat (change c)) \<le> fsum (f64_pat (Float64frombits (valBits c'))) (upat (change c'))"
    for c'
    using read_pat [OF nb] rd rdn le nb by (simp add: nonneg_fge)
  show ?thesis
  proof (cases "snd (addWithRoundingErrorChecking base v)")
    case False
    define nbase where "nbase = (if feq v f64_zero then base else fadd base v)"
    have "fst (addWithRoundingErrorChecking base v) = nbase"
      by (simp add: rounding_check_cases nbase_def)
    with Add_loop_direct [of c v ovf] False nneg
    have res: "Add ovf c v = Some (Returned (), c\<lparr>valBits := Float64bits nbase\<rparr>)"
      by (simp add: Add_not_negative base_def)
    have nn: "fge nbase f64_zero" using bb v by (simp add: nbase_def fadd_nonneg)
    have "B \<le> f64_pat nbase"
      using bb v Ble nonneg_pat_le [OF v]
      by (simp add: nbase_def B_def fadd_nonneg fsum_ge_left)
    then have "fsum B (upat (change c)) \<le> fsum (f64_pat nbase) (upat (change c))"
      using nonneg_pat_le [OF nn] by (intro fsum_mono) (simp_all add: upat_le_INF)
    with nn have "fge (Float64frombits (valBits (c\<lparr>valBits := Float64bits nbase\<rparr>))) f64_zero
        \<and> fge (fst (get (c\<lparr>valBits := Float64bits nbase\<rparr>))) (fst (get c))"
      by (intro goal) simp_all
    with res show ?thesis by blast
  next
    case True
    define s where "s = change c + uint64_of_float64 ovf v"
    define t where "t = fadd base (float64_of_uint64 s)"
    from nw True have "unat (change c) + unat (uint64_of_float64 ovf v) < 2 ^ 64"
      by (simp add: base_def)
    then have "unat s = unat (change c) + unat (uint64_of_float64 ovf v)"
      unfolding s_def by (rule unat_add_nowrap)
    then have "unat (change c) \<le> unat s" by simp
    then have up: "upat (change c) \<le> upat s" by (rule upat_mono)
    have tn: "fge t f64_zero" and tp: "f64_pat t = fsum B (upat s)"
      using fadd_nonneg [OF bb of_uint64_nonneg, of s] by (simp_all add: t_def B_def of_uint64_pat)
    have le: "fsum B (upat (change c)) \<le> fsum B (upat s)"
      using up Ble by (intro fsum_mono) (simp_all add: upat_le_INF)
    have res: "Add ovf c v = Some (Returned (),
        if feq t base then c\<lparr>change := s\<rparr> else c\<lparr>valBits := Float64bits t, change := 0\<rparr>)"
      using Add_loop_rounding_path [of c v ovf] True nneg
      by (simp add: Add_not_negative base_def t_def s_def)
    show ?thesis
    proof (cases "feq t base")
      case True
      have "fge (Float64frombits (valBits (c\<lparr>change := s\<rparr>))) f64_zero
        \<and> fge (fst (get (c\<lparr>change := s\<rparr>))) (fst (get c))"
        using b le by (intro goal) (simp_all add: B_def base_def)
      with res True show ?thesis by simp
    next
      case False
      have "fsum (f64_pat t) (upat 0) = fsum B (upat s)"
        using fsum_le_INF [of B "upat s"] by (simp add: tp upat_0 fsum_zero_right)
      with le tn have "fge (Float64frombits (valBits (c\<lparr>valBits := Float64bits t, change := 0\<rparr>))) f64_zero
        \<and> fge (fst (get (c\<lparr>valBits := Float64bits t, change := 0\<rparr>))) (fst (get c))"
        by (intro goal) simp_all
      with res False show ?thesis by simp
    qed
  qed
qed

lemma NewCounter_nonneg: "fge (Float64frombits (valBits (NewCounter lps clock))) f64_zero"
  using nonneg_zero by (simp add: NewCounter_def f64_zero_def)

lemma run_append:
  "run ovf c (xs @ ys) = (case run ovf c xs of None \<Rightarrow> None | Some c' \<Rightarrow> run ovf c' ys)"
  by (induction xs arbitrary: c) (simp_all split: option.splits)

lemma run_replicate_Inc:
  "run ovf c (replicate n OpInc) = Some (c\<lparr>change := change c + of_nat n\<rparr>)"
proof (induction n arbitrary: c)
  case 0
  show ?case by simp
next
  case (Suc n)
  show ?case by (simp add: Suc.IH Inc_eq add.assoc add.commute)
qed

lemma reads_monotone_append:
  assumes "reads_monotone ovf c (xs @ ys)" and "run ovf c xs = Some c'"
  shows "reads_monotone ovf c' ys"
  using assms
  by (induction xs arbitrary: c) (auto split: option.splits)

section \<open>The concrete inputs, evaluated\<close>

lemma fresh_fields:
  "valBits fresh = 0" "change fresh = 0" "exemplar fresh = None" "labelPairs fresh = []"
  "createdTs fresh = 1700000000" "now fresh = example_clock"
  by (simp_all add: fresh_def NewCounter_def example_clock_def)

lemma concurrent_AddWithExemplar_fresh:
  "concurrent_AddWithExemplar fresh =
     fresh\<lparr>valBits := 0x3FF0000000000000,
           exemplar := Some \<lparr>Label = [], Value = Float64frombits 0x3FF0000000000000,
                             Timestamp = 1700000000\<rparr>\<rparr>"
proof -
  have v: "\<not> flt (Float64frombits 0x3FF0000000000000) f64_zero" by (simp add: f64_cmp)
  have chk: "addWithRoundingErrorChecking (Float64frombits (valBits fresh)) (Float64frombits 0x3FF0000000000000)
      = (Float64frombits 0x3FF0000000000000, False)"
    by (simp add: rounding_check_cases fresh_def NewCounter_def f64_eval) (simp add: f64_cmp)
  have "Add_loop ovf_saturating fresh (Float64frombits 0x3FF0000000000000)
          = Some (fresh\<lparr>valBits := 0x3FF0000000000000\<rparr>)"
    using Add_loop_direct [of fresh "Float64frombits 0x3FF0000000000000" ovf_saturating]
    by (simp add: chk)
  then show ?thesis
    using v by (simp add: concurrent_AddWithExemplar_def AddWithExemplar_def Add_not_negative
        updateExemplar_def example_newExemplar_def fresh_def NewCounter_def example_clock_def)
qed

lemma read_max_carry:
  "fst (get (fresh\<lparr>change := 0xFFFFFFFFFFFFFFFF\<rparr>)) = Float64frombits 0x43F0000000000000"
  by (simp add: get_eq fresh_fields f64_eval)

lemma read_fresh: "fst (get (fresh\<lparr>change := 0\<rparr>)) = Float64frombits 0"
  by (simp add: get_eq fresh_fields f64_eval)

text \<open>
  A run that a new counter can see in practice and in which the value read goes down:
  \<open>Add 2\<^sup>1\<^sup>1\<^sup>6\<close> commits directly; \<open>Add 2\<^sup>6\<^sup>3\<close> is lost to rounding and banks \<open>2\<^sup>6\<^sup>3\<close> in
  the carry; after 1025 calls of \<^verbatim>\<open>Inc\<close> the carry is large enough to show and the value
  read is \<open>2\<^sup>1\<^sup>1\<^sup>6 + 2\<^sup>6\<^sup>4\<close>; a second \<open>Add 2\<^sup>6\<^sup>3\<close> makes \<^verbatim>\<open>oldChange+u\<close> wrap to 1025,
  which is banked, and the value read is \<open>2\<^sup>1\<^sup>1\<^sup>6\<close> again.
\<close>

lemma wrapping_Add_run:
  "list_all op_nonneg
     (OpAdd (Float64frombits 0x4730000000000000) # OpAdd (Float64frombits 0x43E0000000000000)
        # replicate 1025 OpInc @ [OpAdd (Float64frombits 0x43E0000000000000)])
   \<and> run ovf_saturating fresh
        (OpAdd (Float64frombits 0x4730000000000000) # OpAdd (Float64frombits 0x43E0000000000000)
           # replicate 1025 OpInc)
       = Some (fresh\<lparr>valBits := 0x4730000000000000, change := 0x8000000000000401\<rparr>)
   \<and> fst (get (fresh\<lparr>valBits := 0x4730000000000000, change := 0x8000000000000401\<rparr>))
       = Float64frombits 0x4730000000000001
   \<and> apply_op ovf_saturating (fresh\<lparr>valBits := 0x4730000000000000, change := 0x8000000000000401\<rparr>)
        (OpAdd (Float64frombits 0x43E0000000000000))
       = Some (fresh\<lparr>valBits := 0x4730000000000000, change := 0x401\<rparr>)
   \<and> fst (get (fresh\<lparr>valBits := 0x4730000000000000, change := 0x401\<rparr>))
       = Float64frombits 0x4730000000000000
   \<and> \<not> reads_monotone ovf_saturating fresh
        (OpAdd (Float64frombits 0x4730000000000000) # OpAdd (Float64frombits 0x43E0000000000000)
           # replicate 1025 OpInc @ [OpAdd (Float64frombits 0x43E0000000000000)])"
proof -
  have v1: "fge (Float64frombits 0x4730000000000000) f64_zero" by (simp add: f64_cmp)
  have v2: "fge (Float64frombits 0x43E0000000000000) f64_zero" by (simp add: f64_cmp)
  have l: "list_all op_nonneg
     (OpAdd (Float64frombits 0x4730000000000000) # OpAdd (Float64frombits 0x43E0000000000000)
        # replicate 1025 OpInc @ [OpAdd (Float64frombits 0x43E0000000000000)])"
    using v1 v2 by (simp add: list_all_iff)
  have a1: "Add ovf_saturating fresh (Float64frombits 0x4730000000000000)
      = Some (Returned (), fresh\<lparr>valBits := 0x4730000000000000\<rparr>)"
    using flt_not_fge [OF v1]
    by (intro Add_eval_direct) (simp_all add: fresh_fields rounding_check_cases f64_eval, simp_all add: f64_cmp)
  have r: "snd (addWithRoundingErrorChecking (Float64frombits 0x4730000000000000) (Float64frombits 0x43E0000000000000))"
    by (simp add: rounding_check_cases f64_eval) (simp add: f64_cmp)
  have a2: "Add ovf_saturating (fresh\<lparr>valBits := 0x4730000000000000\<rparr>) (Float64frombits 0x43E0000000000000)
      = Some (Returned (), fresh\<lparr>valBits := 0x4730000000000000, change := 0x8000000000000000\<rparr>)"
    using v2 r
    by (intro Add_eval_lost) (simp_all add: fresh_fields uint64_of_float64_big f64_eval, simp add: f64_cmp)
  have a3: "Add ovf_saturating (fresh\<lparr>valBits := 0x4730000000000000, change := 0x8000000000000401\<rparr>)
        (Float64frombits 0x43E0000000000000)
      = Some (Returned (), fresh\<lparr>valBits := 0x4730000000000000, change := 0x401\<rparr>)"
    using v2 r
    by (intro Add_eval_lost) (simp_all add: fresh_fields uint64_of_float64_big f64_eval, simp add: f64_cmp)
  have rn: "run ovf_saturating fresh
        (OpAdd (Float64frombits 0x4730000000000000) # OpAdd (Float64frombits 0x43E0000000000000)
           # replicate 1025 OpInc)
       = Some (fresh\<lparr>valBits := 0x4730000000000000, change := 0x8000000000000401\<rparr>)"
    by (simp add: a1 a2 run_replicate_Inc)
  have g1: "fst (get (fresh\<lparr>valBits := 0x4730000000000000, change := 0x8000000000000401\<rparr>))
       = Float64frombits 0x4730000000000001"
    by (simp add: get_eq f64_eval)
  have g2: "fst (get (fresh\<lparr>valBits := 0x4730000000000000, change := 0x401\<rparr>))
       = Float64frombits 0x4730000000000000"
    by (simp add: get_eq f64_eval)
  have ap: "apply_op ovf_saturating (fresh\<lparr>valBits := 0x4730000000000000, change := 0x8000000000000401\<rparr>)
        (OpAdd (Float64frombits 0x43E0000000000000))
       = Some (fresh\<lparr>valBits := 0x4730000000000000, change := 0x401\<rparr>)"
    by (simp add: a3)
  have nf: "\<not> fge (Float64frombits 0x4730000000000000) (Float64frombits 0x4730000000000001)"
    by (simp add: f64_cmp)
  have nm: "\<not> reads_monotone ovf_saturating
        (fresh\<lparr>valBits := 0x4730000000000000, change := 0x8000000000000401\<rparr>)
        [OpAdd (Float64frombits 0x43E0000000000000)]"
    using nf by (simp add: a3 g1 g2)
  have "\<not> reads_monotone ovf_saturating fresh
        ((OpAdd (Float64frombits 0x4730000000000000) # OpAdd (Float64frombits 0x43E0000000000000)
           # replicate 1025 OpInc) @ [OpAdd (Float64frombits 0x43E0000000000000)])"
    using reads_monotone_append [OF _ rn] nm by blast
  then have nr: "\<not> reads_monotone ovf_saturating fresh
        (OpAdd (Float64frombits 0x4730000000000000) # OpAdd (Float64frombits 0x43E0000000000000)
           # replicate 1025 OpInc @ [OpAdd (Float64frombits 0x43E0000000000000)])"
    by simp
  from l rn g1 ap g2 nr show ?thesis by (simp only: simp_thms)
qed

section \<open>The lookup modelled from the spec\<close>

lemma lookup_mismatch:
  "length lvs \<noteq> length (variableLabelNames m) \<Longrightarrow>
     MetricVec_GetMetricWithLabelValues m lvs = ((None, Some ''inconsistent label cardinality''), m)"
  by (simp add: MetricVec_GetMetricWithLabelValues_def)

lemma lookup_match_no_error:
  "length lvs = length (variableLabelNames m) \<Longrightarrow>
     snd (fst (MetricVec_GetMetricWithLabelValues m lvs)) = None"
  by (simp add: MetricVec_GetMetricWithLabelValues_def newMetric_def split: option.splits)

section \<open>The claims\<close>




text \<open>
  C2, as the code has it. For every call \<open>Add v\<close> with \<open>v \<ge> 0\<close> the rounding-loss path
  (banking or fold of the carry) is taken exactly when \<open>v\<close> is not zero and the float sum
  \<open>base + v\<close> equals the base. In all other cases \<open>Add\<close> commits directly and leaves the
  carry alone: it swaps \<open>valBits\<close> for the bits of \<open>base + v\<close> when \<open>v\<close> is not zero, and for
  the bits of the base itself when \<open>v\<close> is zero.
\<close>

theorem rounding_path_iff_nonzero_and_lost:
  assumes v: "fge v f64_zero"
  shows "(snd (addWithRoundingErrorChecking (Float64frombits (valBits c)) v)
           \<longleftrightarrow> \<not> feq v f64_zero \<and> feq (fadd (Float64frombits (valBits c)) v) (Float64frombits (valBits c)))
    \<and> (\<not> feq v f64_zero \<and> feq (fadd (Float64frombits (valBits c)) v) (Float64frombits (valBits c))
         \<longrightarrow> Add ovf c v = Some (Returned (),
               if feq (fadd (Float64frombits (valBits c))
                         (float64_of_uint64 (change c + uint64_of_float64 ovf v)))
                      (Float64frombits (valBits c))
               then c\<lparr>change := change c + uint64_of_float64 ovf v\<rparr>
               else c\<lparr>valBits := Float64bits (fadd (Float64frombits (valBits c))
                         (float64_of_uint64 (change c + uint64_of_float64 ovf v))),
                      change := 0\<rparr>))
    \<and> (\<not> (\<not> feq v f64_zero \<and> feq (fadd (Float64frombits (valBits c)) v) (Float64frombits (valBits c)))
         \<longrightarrow> Add ovf c v = Some (Returned (),
               c\<lparr>valBits := Float64bits (if feq v f64_zero then Float64frombits (valBits c)
                                            else fadd (Float64frombits (valBits c)) v)\<rparr>))"
proof -
  define base where "base = Float64frombits (valBits c)"
  have flag: "snd (addWithRoundingErrorChecking base v) \<longleftrightarrow> \<not> feq v f64_zero \<and> feq (fadd base v) base"
    by (simp add: rounding_check_cases)
  have nneg: "\<not> flt v f64_zero" using v by (rule flt_not_fge)
  have direct: "Add ovf c v = Some (Returned (),
       c\<lparr>valBits := Float64bits (if feq v f64_zero then base else fadd base v)\<rparr>)"
    if "\<not> (\<not> feq v f64_zero \<and> feq (fadd base v) base)"
  proof -
    from that flag have nf: "\<not> snd (addWithRoundingErrorChecking (Float64frombits (valBits c)) v)"
      by (simp add: base_def)
    have "fst (addWithRoundingErrorChecking base v) = (if feq v f64_zero then base else fadd base v)"
      by (simp add: rounding_check_cases)
    with Add_loop_direct [OF nf, of ovf] nneg show ?thesis
      by (simp add: Add_not_negative base_def)
  qed
  have lost: "Add ovf c v = Some (Returned (),
       if feq (fadd base (float64_of_uint64 (change c + uint64_of_float64 ovf v))) base
       then c\<lparr>change := change c + uint64_of_float64 ovf v\<rparr>
       else c\<lparr>valBits := Float64bits (fadd base (float64_of_uint64 (change c + uint64_of_float64 ovf v))),
              change := 0\<rparr>)"
    if "\<not> feq v f64_zero \<and> feq (fadd base v) base"
  proof -
    from that flag have rr: "snd (addWithRoundingErrorChecking (Float64frombits (valBits c)) v)"
      by (simp add: base_def)
    from Add_loop_rounding_path [OF rr, of ovf] nneg show ?thesis
      by (simp add: Add_not_negative base_def)
  qed
  from flag direct lost show ?thesis
    unfolding base_def by blast
qed

text \<open>
  C2 as stated fails at \<open>v = 0\<close>: \<open>base + 0\<close> equals the base, yet the guard
  \<^verbatim>\<open>if addend == 0\<close> of \<^verbatim>\<open>addWithRoundingErrorChecking\<close> reports no loss, and \<open>Add\<close>
  leaves a counter with base 0 and carry 1 as it is, where the rounding-loss path would
  have folded the carry into the float.
\<close>

theorem rounding_path_iff_lost_counterexample:
  "fge f64_zero f64_zero
   \<and> feq (fadd (Float64frombits (valBits (fresh\<lparr>change := 1\<rparr>))) f64_zero)
          (Float64frombits (valBits (fresh\<lparr>change := 1\<rparr>)))
   \<and> \<not> snd (addWithRoundingErrorChecking (Float64frombits (valBits (fresh\<lparr>change := 1\<rparr>))) f64_zero)
   \<and> Add ovf_saturating (fresh\<lparr>change := 1\<rparr>) f64_zero = Some (Returned (), fresh\<lparr>change := 1\<rparr>)"
proof -
  have z: "feq f64_zero f64_zero" by (simp add: f64_cmp)
  have "fadd (Float64frombits 0) f64_zero = Float64frombits 0"
    by (simp add: f64_zero_def f64_eval)
  then have e: "feq (fadd (Float64frombits (valBits (fresh\<lparr>change := 1\<rparr>))) f64_zero)
          (Float64frombits (valBits (fresh\<lparr>change := 1\<rparr>)))"
    by (simp add: fresh_fields) (simp add: f64_cmp)
  have n: "\<not> snd (addWithRoundingErrorChecking (Float64frombits (valBits (fresh\<lparr>change := 1\<rparr>))) f64_zero)"
    using z by (simp add: rounding_check_cases)
  have "Add_loop ovf_saturating (fresh\<lparr>change := 1\<rparr>) f64_zero = Some (fresh\<lparr>change := 1\<rparr>)"
    using Add_loop_direct [OF n, of ovf_saturating] z by (simp add: rounding_check_cases)
  moreover have "\<not> flt f64_zero f64_zero" by (simp add: f64_cmp)
  ultimately have a: "Add ovf_saturating (fresh\<lparr>change := 1\<rparr>) f64_zero = Some (Returned (), fresh\<lparr>change := 1\<rparr>)"
    by (simp add: Add_not_negative)
  from nonneg_zero e n a show ?thesis by (simp only: simp_thms)
qed

text \<open>
  At the base \<open>2\<^sup>5\<^sup>3\<close> with a carry of 1: adding 1.0 is lost to rounding and takes the
  rounding-loss path (the carry folds), adding 2.0 registers and is committed directly
  (the carry stays).
\<close>

theorem rounding_path_iff_nonzero_and_lost_witness:
  "fge (Float64frombits 0x3FF0000000000000) f64_zero
   \<and> \<not> feq (Float64frombits 0x3FF0000000000000) f64_zero
   \<and> feq (fadd (Float64frombits 0x4340000000000000) (Float64frombits 0x3FF0000000000000))
          (Float64frombits 0x4340000000000000)
   \<and> snd (addWithRoundingErrorChecking (Float64frombits 0x4340000000000000) (Float64frombits 0x3FF0000000000000))
   \<and> Add ovf_saturating (fresh\<lparr>valBits := 0x4340000000000000, change := 1\<rparr>) (Float64frombits 0x3FF0000000000000)
       = Some (Returned (), fresh\<lparr>valBits := 0x4340000000000001, change := 0\<rparr>)
   \<and> \<not> feq (fadd (Float64frombits 0x4340000000000000) (Float64frombits 0x4000000000000000))
          (Float64frombits 0x4340000000000000)
   \<and> fge (Float64frombits 0x4000000000000000) f64_zero
   \<and> Add ovf_saturating (fresh\<lparr>valBits := 0x4340000000000000, change := 1\<rparr>) (Float64frombits 0x4000000000000000)
       = Some (Returned (), fresh\<lparr>valBits := 0x4340000000000001, change := 1\<rparr>)"
proof -
  have v1: "fge (Float64frombits 0x3FF0000000000000) f64_zero" by (simp add: f64_cmp)
  have v2: "fge (Float64frombits 0x4000000000000000) f64_zero" by (simp add: f64_cmp)
  have n1: "\<not> feq (Float64frombits 0x3FF0000000000000) f64_zero" by (simp add: f64_cmp)
  have n2: "\<not> feq (Float64frombits 0x4000000000000000) f64_zero" by (simp add: f64_cmp)
  have s1: "fadd (Float64frombits 0x4340000000000000) (Float64frombits 0x3FF0000000000000)
              = Float64frombits 0x4340000000000000"
    by (simp add: f64_eval)
  have s2: "fadd (Float64frombits 0x4340000000000000) (Float64frombits 0x4000000000000000)
              = Float64frombits 0x4340000000000001"
    by (simp add: f64_eval)
  have e1: "feq (fadd (Float64frombits 0x4340000000000000) (Float64frombits 0x3FF0000000000000))
          (Float64frombits 0x4340000000000000)"
    by (simp only: s1) (simp add: f64_cmp)
  have e2: "\<not> feq (fadd (Float64frombits 0x4340000000000000) (Float64frombits 0x4000000000000000))
          (Float64frombits 0x4340000000000000)"
    by (simp only: s2) (simp add: f64_cmp)
  have f: "snd (addWithRoundingErrorChecking (Float64frombits 0x4340000000000000) (Float64frombits 0x3FF0000000000000))"
    using rounding_path_iff_nonzero_and_lost [OF v1, of "fresh\<lparr>valBits := 0x4340000000000000, change := 1\<rparr>" ovf_saturating]
      n1 e1 by simp
  have a: "Add ovf_saturating (fresh\<lparr>valBits := 0x4340000000000000, change := 1\<rparr>) (Float64frombits 0x3FF0000000000000)
       = Some (Returned (), fresh\<lparr>valBits := 0x4340000000000001, change := 0\<rparr>)"
    using rounding_path_iff_nonzero_and_lost [OF v1, of "fresh\<lparr>valBits := 0x4340000000000000, change := 1\<rparr>" ovf_saturating]
      n1 e1
    by (simp add: f64_eval) (simp add: f64_cmp)
  have b: "Add ovf_saturating (fresh\<lparr>valBits := 0x4340000000000000, change := 1\<rparr>) (Float64frombits 0x4000000000000000)
       = Some (Returned (), fresh\<lparr>valBits := 0x4340000000000001, change := 1\<rparr>)"
    using rounding_path_iff_nonzero_and_lost [OF v2, of "fresh\<lparr>valBits := 0x4340000000000000, change := 1\<rparr>" ovf_saturating]
      n2 e2
    by (simp add: s2)
  from v1 n1 e1 f a e2 v2 b show ?thesis by (simp only: simp_thms)
qed

text \<open>
  C3. For every counter state \<open>get\<close> returns exactly the float decoded from \<open>valBits\<close> plus
  the carry converted to float64, and leaves the counter as it was.
\<close>

theorem get_reads_sum:
  "get c = (fadd (Float64frombits (valBits c)) (float64_of_uint64 (change c)), c)"
  by (simp add: get_def LoadUint64_def)

text \<open>
  With \<open>2\<^sup>5\<^sup>3\<close> in the float register and a carry of 2 the value read is \<open>2\<^sup>5\<^sup>3 + 2\<close>.
\<close>

theorem get_reads_sum_witness:
  "get (fresh\<lparr>valBits := 0x4340000000000000, change := 2\<rparr>)
     = (Float64frombits 0x4340000000000001, fresh\<lparr>valBits := 0x4340000000000000, change := 2\<rparr>)"
  using get_reads_sum [of "fresh\<lparr>valBits := 0x4340000000000000, change := 2\<rparr>"]
  by (simp add: f64_eval)

text \<open>
  C4. For every counter state, \<open>Add v\<close> with \<open>v < 0\<close> panics and leaves the counter,
  both registers included, exactly as it was; with \<open>v \<ge> 0\<close> it returns without a panic.
\<close>

theorem Add_panics_iff_negative:
  "(flt v f64_zero \<longrightarrow> Add ovf c v = Some (Panicked ''counter cannot decrease in value'', c))
   \<and> (fge v f64_zero \<longrightarrow> returns (Add ovf c v))"
proof (intro conjI impI)
  assume "flt v f64_zero"
  then show "Add ovf c v = Some (Panicked ''counter cannot decrease in value'', c)"
    by (simp add: Add_def)
next
  assume "fge v f64_zero"
  then have "\<not> flt v f64_zero" by (rule flt_not_fge)
  moreover obtain c' where "Add_loop ovf c v = Some c'"
    using Add_loop_total [of ovf c v] by auto
  ultimately show "returns (Add ovf c v)"
    by (simp add: Add_not_negative returns_def)
qed

text \<open>
  \<open>Add (-1.0)\<close> panics and \<open>Add 1.0\<close> returns.
\<close>

theorem Add_panics_iff_negative_witness:
  "flt (Float64frombits 0xBFF0000000000000) f64_zero
   \<and> Add ovf_saturating (fresh\<lparr>change := 7\<rparr>) (Float64frombits 0xBFF0000000000000)
       = Some (Panicked ''counter cannot decrease in value'', fresh\<lparr>change := 7\<rparr>)
   \<and> fge (Float64frombits 0x3FF0000000000000) f64_zero
   \<and> returns (Add ovf_saturating (fresh\<lparr>change := 7\<rparr>) (Float64frombits 0x3FF0000000000000))"
proof -
  have n: "flt (Float64frombits 0xBFF0000000000000) f64_zero" by (simp add: f64_cmp)
  have p: "fge (Float64frombits 0x3FF0000000000000) f64_zero" by (simp add: f64_cmp)
  from n p
    Add_panics_iff_negative [of "Float64frombits 0xBFF0000000000000" ovf_saturating "fresh\<lparr>change := 7\<rparr>"]
    Add_panics_iff_negative [of "Float64frombits 0x3FF0000000000000" ovf_saturating "fresh\<lparr>change := 7\<rparr>"]
  show ?thesis by (simp only: simp_thms)
qed

text \<open>
  C5, as the code has it. For every counter whose float register holds a value \<open>\<ge> 0\<close>
  (a new counter does, and these operations keep it so) and every finite sequence of
  \<open>Inc\<close> and \<open>Add v\<close> with \<open>v \<ge> 0\<close>, run sequentially, in which the carry register
  never wraps around \<open>2\<^sup>6\<^sup>4\<close>: the value read after each operation is \<open>\<ge>\<close> the value read
  before it.
\<close>

theorem reads_monotone_unless_carry_wraps:
  assumes "fge (Float64frombits (valBits c)) f64_zero"
    and "list_all op_nonneg ops"
    and "carry_never_wraps ovf c ops"
  shows "reads_monotone ovf c ops"
  using assms
proof (induction ops arbitrary: c)
  case Nil
  show ?case by simp
next
  case (Cons x xs)
  show ?case
  proof (cases x)
    case OpInc
    with Cons.prems have nw: "\<not> carry_wraps ovf c OpInc" and rest: "carry_never_wraps ovf (Inc c) xs"
      by simp_all
    from step_Inc [OF Cons.prems(1) nw]
    have b': "fge (Float64frombits (valBits (Inc c))) f64_zero"
      and m: "fge (fst (get (Inc c))) (fst (get c))" by simp_all
    from Cons.prems(2) have "list_all op_nonneg xs" by simp
    with Cons.IH [OF b' _ rest] m OpInc show ?thesis by simp
  next
    case (OpAdd v)
    with Cons.prems have nw: "\<not> carry_wraps ovf c (OpAdd v)" and v: "fge v f64_zero"
      by simp_all
    from step_Add [OF Cons.prems(1) v nw] obtain c' where
      res: "Add ovf c v = Some (Returned (), c')"
      and b': "fge (Float64frombits (valBits c')) f64_zero"
      and m: "fge (fst (get c')) (fst (get c))" by blast
    from res have ap: "apply_op ovf c (OpAdd v) = Some c'" by simp
    with Cons.prems(3) OpAdd have rest: "carry_never_wraps ovf c' xs" by simp
    from Cons.prems(2) have "list_all op_nonneg xs" by simp
    with Cons.IH [OF b' _ rest] m OpAdd ap show ?thesis by simp
  qed
qed

text \<open>
  C5 as stated fails when the carry wraps: on a counter with base 0 and carry
  \<open>2\<^sup>6\<^sup>4 - 1\<close> the value read is \<open>2\<^sup>6\<^sup>4\<close>, and after one \<^verbatim>\<open>Inc\<close> it is 0. The comment in
  \<^verbatim>\<open>Inc\<close> accepts this overflow ("ignore the rare overflow case"). The carry wraps in
  \<^verbatim>\<open>Add\<close> as well: \<open>wrapping_Add_run\<close> above is a run of 1028 calls on a new counter after
  which the value read has gone down by \<open>2\<^sup>6\<^sup>4\<close>.
\<close>

theorem reads_monotone_counterexample:
  "list_all op_nonneg [OpInc]
   \<and> fst (get (fresh\<lparr>change := 0xFFFFFFFFFFFFFFFF\<rparr>)) = Float64frombits 0x43F0000000000000
   \<and> fst (get (Inc (fresh\<lparr>change := 0xFFFFFFFFFFFFFFFF\<rparr>))) = Float64frombits 0
   \<and> \<not> reads_monotone ovf_saturating (fresh\<lparr>change := 0xFFFFFFFFFFFFFFFF\<rparr>) [OpInc]"
proof -
  have i: "Inc (fresh\<lparr>change := 0xFFFFFFFFFFFFFFFF\<rparr>) = fresh\<lparr>change := 0\<rparr>"
    by (simp add: Inc_eq)
  have "\<not> fge (Float64frombits 0) (Float64frombits 0x43F0000000000000)"
    by (simp add: f64_cmp)
  then show ?thesis
    by (simp add: i read_max_carry read_fresh)
qed

text \<open>
  From the base \<open>2\<^sup>5\<^sup>3\<close>: \<open>Add 1.0\<close> banks 1 in the carry, a second \<open>Add 1.0\<close> folds the
  carry of 2 into the float, \<^verbatim>\<open>Inc\<close> adds 1 to the carry; the reads never go down.
\<close>

theorem reads_monotone_unless_carry_wraps_witness:
  "fge (Float64frombits (valBits (fresh\<lparr>valBits := 0x4340000000000000\<rparr>))) f64_zero
   \<and> list_all op_nonneg
        [OpAdd (Float64frombits 0x3FF0000000000000), OpAdd (Float64frombits 0x3FF0000000000000), OpInc]
   \<and> carry_never_wraps ovf_saturating (fresh\<lparr>valBits := 0x4340000000000000\<rparr>)
        [OpAdd (Float64frombits 0x3FF0000000000000), OpAdd (Float64frombits 0x3FF0000000000000), OpInc]
   \<and> reads_monotone ovf_saturating (fresh\<lparr>valBits := 0x4340000000000000\<rparr>)
        [OpAdd (Float64frombits 0x3FF0000000000000), OpAdd (Float64frombits 0x3FF0000000000000), OpInc]"
proof -
  have v: "fge (Float64frombits 0x3FF0000000000000) f64_zero" by (simp add: f64_cmp)
  have b: "fge (Float64frombits (valBits (fresh\<lparr>valBits := 0x4340000000000000\<rparr>))) f64_zero"
    by (simp add: f64_cmp)
  have r: "snd (addWithRoundingErrorChecking (Float64frombits 0x4340000000000000) (Float64frombits 0x3FF0000000000000))"
    by (simp add: rounding_check_cases f64_eval) (simp add: f64_cmp)
  have a1: "Add ovf_saturating (fresh\<lparr>valBits := 0x4340000000000000\<rparr>) (Float64frombits 0x3FF0000000000000)
      = Some (Returned (), fresh\<lparr>valBits := 0x4340000000000000, change := 1\<rparr>)"
    using v r by (intro Add_eval_lost) (simp_all add: fresh_fields f64_eval, simp add: f64_cmp)
  have a2: "Add ovf_saturating (fresh\<lparr>valBits := 0x4340000000000000, change := 1\<rparr>) (Float64frombits 0x3FF0000000000000)
      = Some (Returned (), fresh\<lparr>valBits := 0x4340000000000001, change := 0\<rparr>)"
    using v r by (intro Add_eval_lost) (simp_all add: fresh_fields f64_eval, simp add: f64_cmp)
  have u: "unat (uint64_of_float64 ovf_saturating (Float64frombits 0x3FF0000000000000)) = 1"
    by (simp add: f64_eval)
  have l: "list_all op_nonneg
        [OpAdd (Float64frombits 0x3FF0000000000000), OpAdd (Float64frombits 0x3FF0000000000000), OpInc]"
    using v by simp
  have w: "carry_never_wraps ovf_saturating (fresh\<lparr>valBits := 0x4340000000000000\<rparr>)
        [OpAdd (Float64frombits 0x3FF0000000000000), OpAdd (Float64frombits 0x3FF0000000000000), OpInc]"
    by (simp add: a1 a2 u fresh_fields)
  from b l w reads_monotone_unless_carry_wraps [OF b l w] show ?thesis by (simp only: simp_thms)
qed

text \<open>
  C6. In every run of \<open>Write\<close> the exemplar is loaded before the value is read: whatever
  other goroutines do to the counter between the two reads, the record that \<open>Write\<close> hands to
  \<open>populateMetric\<close> pairs the exemplar of the earlier state with the value of the later
  one.
\<close>

theorem Write_exemplar_before_value:
  "Write populateMetric env c =
     (populateMetric CounterValue (fst (get (env c))) (labelPairs (env c)) (exemplar c)
        (createdTs (env c)), env c)"
proof -
  have "(case exemplar c of None \<Rightarrow> None | Some x \<Rightarrow> Some x) = exemplar c"
    by (cases "exemplar c") simp_all
  then show ?thesis
    by (simp add: Write_def get_eq Let_def)
qed

text \<open>
  When another goroutine adds 1.0 with an exemplar between the two reads of \<open>Write\<close> on a
  new counter, the record shows the new value 1.0 with the old exemplar (none), never
  the new exemplar with the old value.
\<close>

theorem Write_exemplar_before_value_witness:
  "Write example_populate concurrent_AddWithExemplar fresh =
     ((CounterValue, Float64frombits 0x3FF0000000000000, [], None, 1700000000),
      fresh\<lparr>valBits := 0x3FF0000000000000,
            exemplar := Some \<lparr>Label = [], Value = Float64frombits 0x3FF0000000000000,
                              Timestamp = 1700000000\<rparr>\<rparr>)"
  using Write_exemplar_before_value [of example_populate concurrent_AddWithExemplar fresh]
  by (simp add: concurrent_AddWithExemplar_fresh get_eq example_populate_def fresh_fields f64_eval)

text \<open>
  C7. For every vector and every sequence of label values, whatever the lookup of the
  embedded \<^verbatim>\<open>MetricVec\<close> does: \<^verbatim>\<open>WithLabelValues\<close> panics exactly when
  \<^verbatim>\<open>GetMetricWithLabelValues\<close> returns an error, with that error as the panic value; when
  there is no error both return the same Counter; and both leave the vector in the same
  state.
\<close>

theorem WithLabelValues_panics_iff_error:
  "(panics (fst (WithLabelValues mvGet v lvs))
      \<longleftrightarrow> snd (fst (GetMetricWithLabelValues mvGet v lvs)) \<noteq> None)
   \<and> (\<forall>e. snd (fst (GetMetricWithLabelValues mvGet v lvs)) = Some e
         \<longrightarrow> WithLabelValues mvGet v lvs = (Panicked e, snd (GetMetricWithLabelValues mvGet v lvs)))
   \<and> (snd (fst (GetMetricWithLabelValues mvGet v lvs)) = None
         \<longrightarrow> WithLabelValues mvGet v lvs
               = (Returned (fst (fst (GetMetricWithLabelValues mvGet v lvs))),
                  snd (GetMetricWithLabelValues mvGet v lvs)))
   \<and> GetMetricWithLabelValues mvGet v lvs = mvGet v lvs"
proof -
  obtain metric err v' where g: "mvGet v lvs = ((metric, err), v')"
    by (metis surj_pair)
  have G: "GetMetricWithLabelValues mvGet v lvs = ((metric, err), v')"
    by (cases metric) (simp_all add: GetMetricWithLabelValues_def g)
  show ?thesis
    by (cases err) (simp_all add: WithLabelValues_def G g panics_def)
qed

text \<open>
  On the lookup modelled from the spec, for a vector with the labels code and method:
  one value is a cardinality mismatch, an error from the one and a panic from the other;
  two values give the same new Counter from both, and a second lookup gives it again.
\<close>

theorem WithLabelValues_panics_iff_error_witness:
  "GetMetricWithLabelValues MetricVec_GetMetricWithLabelValues example_vec [''404'']
       = ((None, Some ''inconsistent label cardinality''), example_vec)
   \<and> WithLabelValues MetricVec_GetMetricWithLabelValues example_vec [''404'']
       = (Panicked ''inconsistent label cardinality'', example_vec)
   \<and> fst (GetMetricWithLabelValues MetricVec_GetMetricWithLabelValues example_vec [''404'', ''GET''])
       = (Some 0, None)
   \<and> fst (WithLabelValues MetricVec_GetMetricWithLabelValues example_vec [''404'', ''GET''])
       = Returned (Some 0)
   \<and> snd (WithLabelValues MetricVec_GetMetricWithLabelValues example_vec [''404'', ''GET''])
       = snd (GetMetricWithLabelValues MetricVec_GetMetricWithLabelValues example_vec [''404'', ''GET''])
   \<and> fst (WithLabelValues MetricVec_GetMetricWithLabelValues
            (snd (GetMetricWithLabelValues MetricVec_GetMetricWithLabelValues example_vec [''404'', ''GET'']))
            [''404'', ''GET''])
       = Returned (Some 0)"
proof -
  have a: "MetricVec_GetMetricWithLabelValues example_vec [''404'']
       = ((None, Some ''inconsistent label cardinality''), example_vec)"
    by (simp add: lookup_mismatch example_vec_def)
  have b: "MetricVec_GetMetricWithLabelValues example_vec [''404'', ''GET'']
       = ((Some 0, None),
          example_vec\<lparr>metrics := [([''404'', ''GET''], 0)],
            store := [\<lparr>valBits = 0, change = 0, createdTs = 1700000000,
                       labelPairs = [(''code'', ''404''), (''method'', ''GET'')],
                       exemplar = None, now = example_clock\<rparr>]\<rparr>)"
    by (simp add: MetricVec_GetMetricWithLabelValues_def example_vec_def newMetric_def
        MakeLabelPairs_def example_clock_def)
  have c: "MetricVec_GetMetricWithLabelValues
        (example_vec\<lparr>metrics := [([''404'', ''GET''], 0)],
            store := [\<lparr>valBits = 0, change = 0, createdTs = 1700000000,
                       labelPairs = [(''code'', ''404''), (''method'', ''GET'')],
                       exemplar = None, now = example_clock\<rparr>]\<rparr>) [''404'', ''GET'']
       = ((Some 0, None),
          example_vec\<lparr>metrics := [([''404'', ''GET''], 0)],
            store := [\<lparr>valBits = 0, change = 0, createdTs = 1700000000,
                       labelPairs = [(''code'', ''404''), (''method'', ''GET'')],
                       exemplar = None, now = example_clock\<rparr>]\<rparr>)"
    by (simp add: MetricVec_GetMetricWithLabelValues_def example_vec_def)
  show ?thesis
    using WithLabelValues_panics_iff_error [of MetricVec_GetMetricWithLabelValues example_vec "[''404'']"]
      WithLabelValues_panics_iff_error [of MetricVec_GetMetricWithLabelValues example_vec "[''404'', ''GET'']"]
      WithLabelValues_panics_iff_error [of MetricVec_GetMetricWithLabelValues
         "example_vec\<lparr>metrics := [([''404'', ''GET''], 0)],
            store := [\<lparr>valBits = 0, change = 0, createdTs = 1700000000,
                       labelPairs = [(''code'', ''404''), (''method'', ''GET'')],
                       exemplar = None, now = example_clock\<rparr>]\<rparr>" "[''404'', ''GET'']"]
    by (simp add: a b c)
qed

text \<open>
  C8. For every counter state, \<open>Add\<close> of a zero returns without a panic: the rounding
  check reports no loss, the loop takes the direct commit, which swaps \<open>valBits\<close> for the
  bits it already holds, and the counter, hence the value read, is exactly as before.
\<close>

theorem Add_zero_identity:
  assumes "feq v f64_zero"
  shows "\<not> snd (addWithRoundingErrorChecking (Float64frombits (valBits c)) v)
    \<and> Add_loop ovf c v = Some (c\<lparr>valBits := Float64bits (Float64frombits (valBits c))\<rparr>)
    \<and> Add ovf c v = Some (Returned (), c)
    \<and> map_option (\<lambda>r. fst (get (snd r))) (Add ovf c v) = Some (fst (get c))"
proof -
  have a: "addWithRoundingErrorChecking (Float64frombits (valBits c)) v
             = (Float64frombits (valBits c), False)"
    using assms by (simp add: addWithRoundingErrorChecking_def)
  then have b: "Add_loop ovf c v = Some (c\<lparr>valBits := Float64bits (Float64frombits (valBits c))\<rparr>)"
    by (simp add: Add_loop_direct)
  have "\<not> flt v f64_zero" using assms by (rule feq_not_flt)
  then have "Add ovf c v = Some (Returned (), c)"
    by (simp add: Add_not_negative b)
  with a b show ?thesis by simp
qed

text \<open>
  Both zeros of float64 are covered, and so is a counter whose float register holds a NaN.
\<close>

theorem Add_zero_identity_witness:
  "feq (Float64frombits 0x8000000000000000) f64_zero
   \<and> feq f64_zero f64_zero
   \<and> Add ovf_saturating (fresh\<lparr>valBits := 0x4340000000000000, change := 5\<rparr>) (Float64frombits 0x8000000000000000)
       = Some (Returned (), fresh\<lparr>valBits := 0x4340000000000000, change := 5\<rparr>)
   \<and> Add ovf_saturating (fresh\<lparr>valBits := 0x7FF8000000000001, change := 5\<rparr>) f64_zero
       = Some (Returned (), fresh\<lparr>valBits := 0x7FF8000000000001, change := 5\<rparr>)"
proof -
  have m: "feq (Float64frombits 0x8000000000000000) f64_zero" by (simp add: f64_cmp)
  have z: "feq f64_zero f64_zero" by (simp add: f64_cmp)
  from m z
    Add_zero_identity [OF m, of "fresh\<lparr>valBits := 0x4340000000000000, change := 5\<rparr>" ovf_saturating]
    Add_zero_identity [OF z, of "fresh\<lparr>valBits := 0x7FF8000000000001, change := 5\<rparr>" ovf_saturating]
  show ?thesis by (simp only: simp_thms)
qed

text \<open>
  C9. For every \<open>v < 0\<close> and every labels argument, nil or not, \<open>AddWithExemplar\<close>
  panics inside \<open>Add\<close>, before \<open>updateExemplar\<close> runs: the registers and the exemplar are
  exactly as before the call.
\<close>

theorem AddWithExemplar_negative_panics_first:
  assumes "flt v f64_zero"
  shows "AddWithExemplar ovf newExemplar c v e
           = Some (Panicked ''counter cannot decrease in value'', c)"
  using assms by (simp add: AddWithExemplar_def Add_def)

text \<open>
  A valid label set and the nil map give the same panic and the same untouched counter.
\<close>

theorem AddWithExemplar_negative_panics_first_witness:
  "flt (Float64frombits 0xBFF0000000000000) f64_zero
   \<and> AddWithExemplar ovf_saturating example_newExemplar (fresh\<lparr>change := 3\<rparr>)
        (Float64frombits 0xBFF0000000000000) (Some [(''trace_id'', ''abc'')])
       = Some (Panicked ''counter cannot decrease in value'', fresh\<lparr>change := 3\<rparr>)
   \<and> AddWithExemplar ovf_saturating example_newExemplar (fresh\<lparr>change := 3\<rparr>)
        (Float64frombits 0xBFF0000000000000) None
       = Some (Panicked ''counter cannot decrease in value'', fresh\<lparr>change := 3\<rparr>)"
proof -
  have n: "flt (Float64frombits 0xBFF0000000000000) f64_zero" by (simp add: f64_cmp)
  from n
    AddWithExemplar_negative_panics_first [OF n, of ovf_saturating example_newExemplar
      "fresh\<lparr>change := 3\<rparr>" "Some [(''trace_id'', ''abc'')]"]
    AddWithExemplar_negative_panics_first [OF n, of ovf_saturating example_newExemplar
      "fresh\<lparr>change := 3\<rparr>" None]
  show ?thesis by (simp only: simp_thms)
qed

text \<open>
  C10, as the code has it. \<^verbatim>\<open>Inc\<close> adds 1 to the carry register modulo \<open>2\<^sup>6\<^sup>4\<close>, never
  touches \<open>valBits\<close> and has no panic (it is a total function on counters). When the carry
  holds \<open>2\<^sup>6\<^sup>4 - 1\<close> it wraps to 0; the value read afterwards is the base alone (for a base
  \<open>\<ge> 0\<close>), which is never above the value read before, and is strictly below it exactly
  when \<open>base + float64(2\<^sup>6\<^sup>4 - 1)\<close> differs from the base.
\<close>

theorem Inc_adds_one_mod_2_64:
  "Inc c = c\<lparr>change := change c + 1\<rparr>
   \<and> valBits (Inc c) = valBits c
   \<and> unat (change (Inc c)) = (unat (change c) + 1) mod 2 ^ 64
   \<and> (unat (change c) = 2 ^ 64 - 1 \<longrightarrow>
        change (Inc c) = 0
        \<and> (fge (Float64frombits (valBits c)) f64_zero \<longrightarrow>
             feq (fst (get (Inc c))) (Float64frombits (valBits c))
             \<and> fge (fst (get c)) (fst (get (Inc c)))
             \<and> (flt (fst (get (Inc c))) (fst (get c))
                  \<longleftrightarrow> \<not> feq (fadd (Float64frombits (valBits c)) (float64_of_uint64 (change c)))
                            (Float64frombits (valBits c)))))"
proof (intro conjI impI)
  show e: "Inc c = c\<lparr>change := change c + 1\<rparr>" by (rule Inc_eq)
  show "valBits (Inc c) = valBits c" by (simp add: Inc_eq)
  show "unat (change (Inc c)) = (unat (change c) + 1) mod 2 ^ 64"
    by (simp add: Inc_eq unat_word_ariths)
  assume m: "unat (change c) = 2 ^ 64 - 1"
  then have "unat (change c + 1) = 0" by (simp add: unat_word_ariths)
  then show z: "change (Inc c) = 0" by (simp add: Inc_eq unat_eq_zero)
  assume b: "fge (Float64frombits (valBits c)) f64_zero"
  define B where "B = f64_pat (Float64frombits (valBits c))"
  have Ble: "B \<le> INF_PAT" unfolding B_def using b by (rule nonneg_pat_le)
  have b': "fge (Float64frombits (valBits (Inc c))) f64_zero" using b by (simp add: Inc_eq)
  have r: "f64_pat (fst (get c)) = fsum B (upat (change c))" and rn: "fge (fst (get c)) f64_zero"
    using read_pat [OF b] by (simp_all add: B_def)
  have "f64_pat (fst (get (Inc c))) = fsum B (upat (change (Inc c)))"
    using read_pat(2) [OF b'] by (simp add: B_def Inc_eq)
  then have r': "f64_pat (fst (get (Inc c))) = B" using Ble by (simp add: z upat_0 fsum_zero_right)
  have rn': "fge (fst (get (Inc c))) f64_zero" using read_pat(1) [OF b'] .
  have ge: "B \<le> fsum B (upat (change c))" using Ble by (intro fsum_ge_left) (simp_all add: upat_le_INF)
  show "feq (fst (get (Inc c))) (Float64frombits (valBits c))"
    using rn' b r' by (simp add: nonneg_feq B_def)
  show "fge (fst (get c)) (fst (get (Inc c)))"
    using rn rn' r r' ge by (simp add: nonneg_fge)
  have "flt (fst (get (Inc c))) (fst (get c)) \<longleftrightarrow> B < fsum B (upat (change c))"
    using rn rn' r r' by (simp add: nonneg_flt)
  also have "\<dots> \<longleftrightarrow> fsum B (upat (change c)) \<noteq> B" using ge by auto
  also have "\<dots> \<longleftrightarrow> \<not> feq (fst (get c)) (Float64frombits (valBits c))"
    using rn b r by (simp add: nonneg_feq B_def)
  finally show "flt (fst (get (Inc c))) (fst (get c))
      \<longleftrightarrow> \<not> feq (fadd (Float64frombits (valBits c)) (float64_of_uint64 (change c)))
                (Float64frombits (valBits c))"
    by (simp add: get_eq)
qed

text \<open>
  C10 as stated fails where the carry is invisible in the sum: with the base \<open>2\<^sup>1\<^sup>2\<^sup>0\<close> and the
  carry \<open>2\<^sup>6\<^sup>4 - 1\<close> the value read is \<open>2\<^sup>1\<^sup>2\<^sup>0\<close> before and after the wrapping \<^verbatim>\<open>Inc\<close>: it
  does not decrease.
\<close>

theorem Inc_wrap_read_decreases_counterexample:
  "unat (change (fresh\<lparr>valBits := 0x4770000000000000, change := 0xFFFFFFFFFFFFFFFF\<rparr>)) = 2 ^ 64 - 1
   \<and> Inc (fresh\<lparr>valBits := 0x4770000000000000, change := 0xFFFFFFFFFFFFFFFF\<rparr>)
       = fresh\<lparr>valBits := 0x4770000000000000, change := 0\<rparr>
   \<and> fst (get (fresh\<lparr>valBits := 0x4770000000000000, change := 0xFFFFFFFFFFFFFFFF\<rparr>))
       = Float64frombits 0x4770000000000000
   \<and> fst (get (Inc (fresh\<lparr>valBits := 0x4770000000000000, change := 0xFFFFFFFFFFFFFFFF\<rparr>)))
       = Float64frombits 0x4770000000000000
   \<and> \<not> flt (fst (get (Inc (fresh\<lparr>valBits := 0x4770000000000000, change := 0xFFFFFFFFFFFFFFFF\<rparr>))))
            (fst (get (fresh\<lparr>valBits := 0x4770000000000000, change := 0xFFFFFFFFFFFFFFFF\<rparr>)))"
proof -
  have i: "Inc (fresh\<lparr>valBits := 0x4770000000000000, change := 0xFFFFFFFFFFFFFFFF\<rparr>)
       = fresh\<lparr>valBits := 0x4770000000000000, change := 0\<rparr>"
    by (simp add: Inc_eq)
  have g: "fst (get (fresh\<lparr>valBits := 0x4770000000000000, change := 0xFFFFFFFFFFFFFFFF\<rparr>))
       = Float64frombits 0x4770000000000000"
    by (simp add: get_eq f64_eval)
  have g': "fst (get (fresh\<lparr>valBits := 0x4770000000000000, change := 0\<rparr>))
       = Float64frombits 0x4770000000000000"
    by (simp add: get_eq f64_eval)
  have n: "\<not> flt (Float64frombits 0x4770000000000000) (Float64frombits 0x4770000000000000)"
    by (simp add: flt_def)
  show ?thesis
    by (simp add: i g g' n)
qed

text \<open>
  With the base 0 and the carry \<open>2\<^sup>6\<^sup>4 - 1\<close> the value read drops from \<open>2\<^sup>6\<^sup>4\<close> to 0.
\<close>

theorem Inc_adds_one_mod_2_64_witness:
  "unat (change (fresh\<lparr>change := 0xFFFFFFFFFFFFFFFF\<rparr>)) = 2 ^ 64 - 1
   \<and> fge (Float64frombits (valBits (fresh\<lparr>change := 0xFFFFFFFFFFFFFFFF\<rparr>))) f64_zero
   \<and> Inc (fresh\<lparr>change := 0xFFFFFFFFFFFFFFFF\<rparr>) = fresh\<lparr>change := 0\<rparr>
   \<and> fst (get (fresh\<lparr>change := 0xFFFFFFFFFFFFFFFF\<rparr>)) = Float64frombits 0x43F0000000000000
   \<and> fst (get (Inc (fresh\<lparr>change := 0xFFFFFFFFFFFFFFFF\<rparr>))) = Float64frombits 0
   \<and> flt (fst (get (Inc (fresh\<lparr>change := 0xFFFFFFFFFFFFFFFF\<rparr>))))
          (fst (get (fresh\<lparr>change := 0xFFFFFFFFFFFFFFFF\<rparr>)))"
proof -
  have m: "unat (change (fresh\<lparr>change := 0xFFFFFFFFFFFFFFFF\<rparr>)) = 2 ^ 64 - 1" by simp
  have b: "fge (Float64frombits (valBits (fresh\<lparr>change := 0xFFFFFFFFFFFFFFFF\<rparr>))) f64_zero"
    using nonneg_zero by (simp add: fresh_fields f64_zero_def)
  have s: "fadd (Float64frombits 0) (float64_of_uint64 0xFFFFFFFFFFFFFFFF) = Float64frombits 0x43F0000000000000"
    by (simp add: f64_eval)
  have ne: "\<not> feq (Float64frombits 0x43F0000000000000) (Float64frombits 0)"
    by (simp add: f64_cmp)
  have "flt (fst (get (Inc (fresh\<lparr>change := 0xFFFFFFFFFFFFFFFF\<rparr>))))
          (fst (get (fresh\<lparr>change := 0xFFFFFFFFFFFFFFFF\<rparr>)))
      \<longleftrightarrow> \<not> feq (fadd (Float64frombits (valBits (fresh\<lparr>change := 0xFFFFFFFFFFFFFFFF\<rparr>)))
                  (float64_of_uint64 (change (fresh\<lparr>change := 0xFFFFFFFFFFFFFFFF\<rparr>))))
                (Float64frombits (valBits (fresh\<lparr>change := 0xFFFFFFFFFFFFFFFF\<rparr>)))"
    using Inc_adds_one_mod_2_64 [of "fresh\<lparr>change := 0xFFFFFFFFFFFFFFFF\<rparr>"] m b by blast
  then have "flt (fst (get (Inc (fresh\<lparr>change := 0xFFFFFFFFFFFFFFFF\<rparr>))))
          (fst (get (fresh\<lparr>change := 0xFFFFFFFFFFFFFFFF\<rparr>)))"
    using s ne by (simp add: fresh_fields)
  moreover have "Inc (fresh\<lparr>change := 0xFFFFFFFFFFFFFFFF\<rparr>) = fresh\<lparr>change := 0\<rparr>"
    by (simp add: Inc_eq)
  ultimately show ?thesis
    using m b by (simp add: read_max_carry read_fresh)
qed

end
